theory Spec2Isabelle
  imports Main "HOL-Library.Word" "HOL-Library.Multiset"
begin

section \<open>Data model\<close>

text \<open>
  JavaScript strings are sequences of UTF-16 code units. The placeholder marker of
  \<^verbatim>\<open>paths.ts\<close> (the template module) is the single code unit U+26A1.
\<close>

type_synonym jstring = "16 word list"
type_synonym nodeId = nat
type_synonym NodePath = "nat list"

definition utf16 :: "string \<Rightarrow> jstring" where
  "utf16 s = map of_char s"

definition replacement :: jstring where
  "replacement = [0x26A1]"

text \<open>
  The host tree. A node has an identity, a kind and its child nodes in order. The kinds
  are the node types the HTML parser produces inside a template: elements (namespace, tag
  name and attributes in order), text, comments, and the document fragment that holds
  them. The namespaces are the three in which the HTML parser creates elements. Every
  document of the model is an HTML document.
\<close>

datatype namespace = HTML | SVG | MathML

datatype kind =
    Element namespace jstring "(jstring \<times> jstring) list"
  | Text jstring
  | Comment jstring
  | DocumentFragment

datatype node = Node (nid: nodeId) (nkind: kind) (kids: "node list")

text \<open>What the structural parser returns: markup without node identities.\<close>

datatype html =
    HElement namespace jstring "(jstring \<times> jstring) list" "html list"
  | HText jstring
  | HComment jstring

text \<open>\<^verbatim>\<open>TemplateArgument = string | Node | false | null\<close>; reading past the end of the
  argument array gives \<^verbatim>\<open>undefined\<close>.\<close>

datatype TemplateArgument = AString jstring | ANode nodeId | AFalse | ANull | AUndefined

text \<open>
  Errors. \<open>Error\<close> is a JavaScript \<^verbatim>\<open>Error\<close> with its message; \<open>TypeError\<close> is a property
  read on \<^verbatim>\<open>null\<close> or \<^verbatim>\<open>undefined\<close>; the next three are the host tree's exceptions.
  \<open>NoSuchNode\<close> is a reference to an identity that the store does not hold, which no
  JavaScript reference can be.
\<close>

datatype error =
    Error jstring | TypeError | IndexSizeError | HierarchyRequestError | InvalidCharacterError
  | NoSuchNode

text \<open>
  A document is the forest of its parentless nodes (each with its subtree), the next
  unused identity, the global \<^verbatim>\<open>name\<close> that \<^verbatim>\<open>updateAttrValueSlot\<close> reads, and what has been
  written with \<^verbatim>\<open>console.warn\<close> (the two values substituted into the format).
\<close>

record document =
  roots :: "node list"
  nextId :: nodeId
  windowName :: jstring
  console :: "(jstring \<times> TemplateArgument) list"

datatype TemplateSlot =
    TemplateNodeSlot NodePath
  | TemplateAttrValueSlot NodePath jstring

fun slotPath :: "TemplateSlot \<Rightarrow> NodePath" where
  "slotPath (TemplateNodeSlot p) = p"
| "slotPath (TemplateAttrValueSlot p n) = p"

text \<open>The template's content lives in a document of its own and is only ever cloned.\<close>

record Template =
  templateDocument :: document
  content :: nodeId
  slots :: "TemplateSlot list"

text \<open>
  \<^verbatim>\<open>endBefore\<close> is declared non-null in the source, but it is assigned
  \<^verbatim>\<open>node.nextSibling as ChildNode\<close>, so at run time it can be \<^verbatim>\<open>null\<close>; \<^verbatim>\<open>element\<close> is
  \<^verbatim>\<open>node as Element\<close> and can be \<^verbatim>\<open>undefined\<close>.
\<close>

datatype TemplateInstanceSlot =
    NodeSlot (startAfter: "nodeId option") (endBefore: "nodeId option")
  | AttrValueSlot (element: "nodeId option") (name: jstring)

record TemplateInstance =
  fragment :: nodeId
  instanceSlots :: "TemplateInstanceSlot list"
  nodeSlots :: "TemplateInstanceSlot list"
  attrValueSlots :: "TemplateInstanceSlot list"

section \<open>The host tree's operations\<close>

subsection \<open>Reading\<close>

text \<open>All nodes of a forest in tree order, each with its subtree.\<close>

fun preorder :: "node list \<Rightarrow> node list" where
  "preorder [] = []"
| "preorder (Node i k cs # xs) = Node i k cs # preorder cs @ preorder xs"

definition findNode :: "nodeId \<Rightarrow> node list \<Rightarrow> node option" where
  "findNode n f = find (\<lambda>x. nid x = n) (preorder f)"

definition parentOf :: "nodeId \<Rightarrow> node list \<Rightarrow> node option" where
  "parentOf n f = find (\<lambda>x. n \<in> nid ` set (kids x)) (preorder f)"

definition kindOf :: "document \<Rightarrow> nodeId \<Rightarrow> kind option" where
  "kindOf d n = map_option nkind (findNode n (roots d))"

definition parentNode :: "document \<Rightarrow> nodeId \<Rightarrow> nodeId option" where
  "parentNode d n = map_option nid (parentOf n (roots d))"

text \<open>The chain of \<^verbatim>\<open>previousSibling\<close> links from a node, and of \<^verbatim>\<open>nextSibling\<close> links, as
  lists in tree order. A parentless node has no siblings.\<close>

definition precedingSiblings :: "document \<Rightarrow> nodeId \<Rightarrow> nodeId list" where
  "precedingSiblings d n =
     (case parentOf n (roots d) of None \<Rightarrow> []
      | Some p \<Rightarrow> map nid (takeWhile (\<lambda>x. nid x \<noteq> n) (kids p)))"

definition followingSiblings :: "document \<Rightarrow> nodeId \<Rightarrow> nodeId list" where
  "followingSiblings d n =
     (case parentOf n (roots d) of None \<Rightarrow> []
      | Some p \<Rightarrow> map nid (tl (dropWhile (\<lambda>x. nid x \<noteq> n) (kids p))))"

definition previousSibling :: "document \<Rightarrow> nodeId \<Rightarrow> nodeId option" where
  "previousSibling d n =
     (case precedingSiblings d n of [] \<Rightarrow> None | x # xs \<Rightarrow> Some (last (x # xs)))"

definition nextSibling :: "document \<Rightarrow> nodeId \<Rightarrow> nodeId option" where
  "nextSibling d n = (case followingSiblings d n of [] \<Rightarrow> None | x # xs \<Rightarrow> Some x)"

definition childNodes :: "document \<Rightarrow> nodeId \<Rightarrow> nodeId list" where
  "childNodes d n = (case findNode n (roots d) of None \<Rightarrow> [] | Some x \<Rightarrow> map nid (kids x))"

text \<open>\<^verbatim>\<open>node.childNodes[index]\<close>: \<^verbatim>\<open>undefined\<close> out of range.\<close>

definition childAt :: "document \<Rightarrow> nodeId \<Rightarrow> nat \<Rightarrow> nodeId option" where
  "childAt d n index =
     (case findNode n (roots d) of None \<Rightarrow> None
      | Some x \<Rightarrow> if index < length (kids x) then Some (nid (kids x ! index)) else None)"

subsection \<open>Writing\<close>

fun updKind :: "nodeId \<Rightarrow> (kind \<Rightarrow> kind) \<Rightarrow> node list \<Rightarrow> node list" where
  "updKind n g [] = []"
| "updKind n g (Node i k cs # xs) =
     Node i (if i = n then g k else k) (updKind n g cs) # updKind n g xs"

fun withData :: "jstring \<Rightarrow> kind \<Rightarrow> kind" where
  "withData s (Text old) = Text s"
| "withData s (Comment old) = Comment s"
| "withData s k = k"

definition setData :: "document \<Rightarrow> nodeId \<Rightarrow> jstring \<Rightarrow> document" where
  "setData d n s = d\<lparr>roots := updKind n (withData s) (roots d)\<rparr>"

text \<open>
  \<^verbatim>\<open>element.setAttribute(qualifiedName, value)\<close>, by the steps of the host:
  \<^enum> a name that the host does not take as an attribute name is an
    \<^verbatim>\<open>InvalidCharacterError\<close>, before anything is changed;
  \<^enum> on an element in the HTML namespace the name is put in ASCII lower case;
  \<^enum> the first attribute with that name gets the value, in place, and when there is
    none a new attribute is appended.

  \<^verbatim>\<open>element.removeAttribute(qualifiedName)\<close> lower-cases the name in the same way, drops
  the attribute and never throws.

  Which names the host takes is the host's rule, and hosts differ (the \<open>Name\<close> production
  of XML in the older ones, the shorter list of forbidden characters of the present DOM
  standard in the newer ones), so the rule is a parameter, \<open>validName\<close>, as the parser is.
  Both are methods of elements: a node of another kind is left as it is (no slot that an
  instantiation makes points at one).
\<close>

definition toLowerCaseASCII :: "jstring \<Rightarrow> jstring" where
  "toLowerCaseASCII s = map (\<lambda>c. if 0x41 \<le> c \<and> c \<le> 0x5A then c + 0x20 else c) s"

fun qualifiedName :: "namespace \<Rightarrow> jstring \<Rightarrow> jstring" where
  "qualifiedName HTML a = toLowerCaseASCII a"
| "qualifiedName SVG a = a"
| "qualifiedName MathML a = a"

fun setAttr :: "jstring \<Rightarrow> jstring \<Rightarrow> (jstring \<times> jstring) list \<Rightarrow> (jstring \<times> jstring) list" where
  "setAttr a v [] = [(a, v)]"
| "setAttr a v ((b, w) # as) = (if b = a then (b, v) # as else (b, w) # setAttr a v as)"

fun withAttrs ::
  "(namespace \<Rightarrow> (jstring \<times> jstring) list \<Rightarrow> (jstring \<times> jstring) list) \<Rightarrow> kind \<Rightarrow> kind"
  where
  "withAttrs g (Element ns tag as) = Element ns tag (g ns as)"
| "withAttrs g k = k"

definition setAttribute ::
  "(jstring \<Rightarrow> bool) \<Rightarrow> document \<Rightarrow> nodeId \<Rightarrow> jstring \<Rightarrow> jstring \<Rightarrow> error + document" where
  "setAttribute validName d n a v =
     (if \<not> validName a then Inl InvalidCharacterError
      else Inr (d\<lparr>roots :=
                  updKind n (withAttrs (\<lambda>ns. setAttr (qualifiedName ns a) v)) (roots d)\<rparr>))"

definition removeAttribute :: "document \<Rightarrow> nodeId \<Rightarrow> jstring \<Rightarrow> document" where
  "removeAttribute d n a =
     d\<lparr>roots :=
         updKind n (withAttrs (\<lambda>ns. filter (\<lambda>(b, w). b \<noteq> qualifiedName ns a))) (roots d)\<rparr>"

text \<open>
  \<^verbatim>\<open>splitText(offset)\<close> keeps the first \<open>offset\<close> code units in the node and puts the rest
  (possibly none) in a new text node, inserted as its next sibling; it returns the new
  node. An offset beyond the data is an \<^verbatim>\<open>IndexSizeError\<close>.
\<close>

fun splitIn :: "nodeId \<Rightarrow> nat \<Rightarrow> nodeId \<Rightarrow> node list \<Rightarrow> node list" where
  "splitIn n off c [] = []"
| "splitIn n off c (Node i k cs # xs) =
     (case k of
        Text s \<Rightarrow>
          if i = n
          then [Node i (Text (take off s)) (splitIn n off c cs), Node c (Text (drop off s)) []]
          else [Node i k (splitIn n off c cs)]
      | _ \<Rightarrow> [Node i k (splitIn n off c cs)])
     @ splitIn n off c xs"

definition splitText :: "document \<Rightarrow> nodeId \<Rightarrow> nat \<Rightarrow> error + document \<times> nodeId" where
  "splitText d n off =
     (case kindOf d n of
        Some (Text s) \<Rightarrow>
          if length s < off then Inl IndexSizeError
          else Inr (d\<lparr>roots := splitIn n off (nextId d) (roots d), nextId := Suc (nextId d)\<rparr>,
                    nextId d)
      | _ \<Rightarrow> Inl TypeError)"

definition createTextNode :: "document \<Rightarrow> jstring \<Rightarrow> document \<times> nodeId" where
  "createTextNode d s =
     (d\<lparr>roots := roots d @ [Node (nextId d) (Text s) []], nextId := Suc (nextId d)\<rparr>, nextId d)"

text \<open>Taking a node, with its subtree, out of the forest.\<close>

fun prune :: "nodeId \<Rightarrow> node list \<Rightarrow> node list" where
  "prune n [] = []"
| "prune n (Node i k cs # xs) =
     (if i = n then [] else [Node i k (prune n cs)]) @ prune n xs"

text \<open>\<^verbatim>\<open>node.remove()\<close>: nothing without a parent; otherwise the node leaves its parent and
  is parentless from then on.\<close>

definition removeNode :: "document \<Rightarrow> nodeId \<Rightarrow> document" where
  "removeNode d n =
     (case parentOf n (roots d) of None \<Rightarrow> d
      | Some p \<Rightarrow>
          (case findNode n (roots d) of None \<Rightarrow> d
           | Some x \<Rightarrow> d\<lparr>roots := prune n (roots d) @ [x]\<rparr>))"

fun dropKids :: "nodeId \<Rightarrow> node list \<Rightarrow> node list" where
  "dropKids n [] = []"
| "dropKids n (Node i k cs # xs) =
     Node i k (if i = n then [] else dropKids n cs) # dropKids n xs"

fun insBefore :: "nodeId \<Rightarrow> node list \<Rightarrow> node list \<Rightarrow> node list" where
  "insBefore r ns [] = []"
| "insBefore r ns (Node i k cs # xs) =
     (if i = r then ns else []) @ Node i k (insBefore r ns cs) # insBefore r ns xs"

text \<open>
  \<^verbatim>\<open>ref.before(node)\<close>. Nothing when \<open>ref\<close> has no parent. A node that is an inclusive
  ancestor of that parent is a \<^verbatim>\<open>HierarchyRequestError\<close>. A document fragment gives up its
  children, which go before \<open>ref\<close>; any other node leaves where it is and goes before
  \<open>ref\<close>. (The host's choice of a viable sibling makes \<^verbatim>\<open>ref.before(ref)\<close> leave the tree as
  it is.)
\<close>

definition before :: "document \<Rightarrow> nodeId \<Rightarrow> nodeId \<Rightarrow> error + document" where
  "before d r n =
     (case parentOf r (roots d) of None \<Rightarrow> Inr d
      | Some p \<Rightarrow>
          (case findNode n (roots d) of None \<Rightarrow> Inl NoSuchNode
           | Some x \<Rightarrow>
               if nid p \<in> nid ` set (preorder [x]) then Inl HierarchyRequestError
               else if n = r then Inr d
               else if nkind x = DocumentFragment
               then Inr (d\<lparr>roots := insBefore r (kids x) (dropKids n (roots d))\<rparr>)
               else Inr (d\<lparr>roots := insBefore r [x] (prune n (roots d))\<rparr>)))"

text \<open>
  The parser's result gets identities in tree order; \<^verbatim>\<open>importNode(node, true)\<close> copies a
  subtree under new identities, again in tree order, into the importing document, where
  the copy is parentless.
\<close>

fun label :: "nodeId \<Rightarrow> html list \<Rightarrow> node list \<times> nodeId" where
  "label c [] = ([], c)"
| "label c (HElement ns tag as hs # rest) =
     (let (cs, c1) = label (Suc c) hs; (xs, c2) = label c1 rest
      in (Node c (Element ns tag as) cs # xs, c2))"
| "label c (HText s # rest) =
     (let (xs, c2) = label (Suc c) rest in (Node c (Text s) [] # xs, c2))"
| "label c (HComment s # rest) =
     (let (xs, c2) = label (Suc c) rest in (Node c (Comment s) [] # xs, c2))"

fun relabel :: "nodeId \<Rightarrow> node list \<Rightarrow> node list \<times> nodeId" where
  "relabel c [] = ([], c)"
| "relabel c (Node i k cs # rest) =
     (let (cs', c1) = relabel (Suc c) cs; (xs, c2) = relabel c1 rest
      in (Node c k cs' # xs, c2))"

definition importNode :: "document \<Rightarrow> document \<Rightarrow> nodeId \<Rightarrow> error + document \<times> nodeId" where
  "importNode d src n =
     (case findNode n (roots src) of None \<Rightarrow> Inl NoSuchNode
      | Some x \<Rightarrow>
          (let (xs, c) = relabel (nextId d) [x]
           in Inr (d\<lparr>roots := roots d @ xs, nextId := c\<rparr>, nextId d)))"

subsection \<open>The node iterator\<close>

text \<open>
  \<^verbatim>\<open>createNodeIterator(root, SHOW_ELEMENT | SHOW_TEXT)\<close>. The iterator holds a reference
  node and whether it points before it; \<^verbatim>\<open>nextNode()\<close> looks, in the tree as it is at the
  time of the call, for the first element or text node that follows the reference in tree
  order among the inclusive descendants of the root (the reference itself when the
  iterator points before it), and makes it the reference.
\<close>

record NodeIterator =
  itRoot :: nodeId
  referenceNode :: nodeId
  pointerBeforeReferenceNode :: bool

definition createNodeIterator :: "nodeId \<Rightarrow> NodeIterator" where
  "createNodeIterator r =
     \<lparr>itRoot = r, referenceNode = r, pointerBeforeReferenceNode = True\<rparr>"

fun shown :: "node \<Rightarrow> bool" where
  "shown (Node i (Element ns tag as) cs) = True"
| "shown (Node i (Text s) cs) = True"
| "shown (Node i k cs) = False"

definition nextNode :: "document \<Rightarrow> NodeIterator \<Rightarrow> nodeId option \<times> NodeIterator" where
  "nextNode d it =
     (let collection = (case findNode (itRoot it) (roots d) of None \<Rightarrow> []
                        | Some r \<Rightarrow> preorder [r]);
          fromRef = dropWhile (\<lambda>x. nid x \<noteq> referenceNode it) collection;
          candidates = (if pointerBeforeReferenceNode it then fromRef else tl fromRef)
      in case find shown candidates of
           None \<Rightarrow> (None, it)
         | Some x \<Rightarrow>
             (Some (nid x), it\<lparr>referenceNode := nid x, pointerBeforeReferenceNode := False\<rparr>))"

section \<open>Paths (\<^verbatim>\<open>pathToNode\<close>, \<^verbatim>\<open>nodeFromPath\<close>)\<close>

text \<open>
  \<^verbatim>\<open>pathToNode\<close> walks up from the target. At each node it counts the \<^verbatim>\<open>previousSibling\<close>
  links, puts the count in front of the result and goes on with the parent; it stops at the
  root and throws when it runs out of parents. The walk need not end in a store whose
  parent links form a cycle, so the loop is a partial function.
\<close>

partial_function (option) pathToNodeLoop ::
  "document \<Rightarrow> nodeId \<Rightarrow> nodeId option \<Rightarrow> NodePath \<Rightarrow> (error + NodePath) option" where
  "pathToNodeLoop d root node result =
     (if node = Some root then Some (Inr result)
      else case node of
             None \<Rightarrow> Some (Inl (Error (utf16 ''Could not find target from root'')))
           | Some n \<Rightarrow>
               pathToNodeLoop d root (parentNode d n)
                 (length (precedingSiblings d n) # result))"

definition pathToNode :: "document \<Rightarrow> nodeId \<Rightarrow> nodeId \<Rightarrow> (error + NodePath) option" where
  "pathToNode d root target = pathToNodeLoop d root (Some target) []"

text \<open>\<^verbatim>\<open>nodeFromPath\<close>: \<^verbatim>\<open>root = root.childNodes[index]\<close> for each index. An index out of range
  gives \<^verbatim>\<open>undefined\<close>, and reading \<^verbatim>\<open>childNodes\<close> of \<^verbatim>\<open>undefined\<close> throws.\<close>

fun nodeFromPath :: "document \<Rightarrow> nodeId option \<Rightarrow> NodePath \<Rightarrow> error + nodeId option" where
  "nodeFromPath d root [] = Inr root"
| "nodeFromPath d root (index # path) =
     (case root of
        None \<Rightarrow> Inl TypeError
      | Some r \<Rightarrow> nodeFromPath d (childAt d r index) path)"

section \<open>The template compiler (\<^verbatim>\<open>createTemplate\<close>)\<close>

text \<open>\<^verbatim>\<open>Array.prototype.join\<close> and \<^verbatim>\<open>String.prototype.indexOf\<close>.\<close>

fun join :: "jstring list \<Rightarrow> jstring \<Rightarrow> jstring" where
  "join [] sep = []"
| "join [s] sep = s"
| "join (s # t # ss) sep = s @ sep @ join (t # ss) sep"

fun indexOf :: "jstring \<Rightarrow> jstring \<Rightarrow> nat option" where
  "indexOf [] pat = (if pat = [] then Some 0 else None)"
| "indexOf (x # xs) pat =
     (if take (length pat) (x # xs) = pat then Some 0 else map_option Suc (indexOf xs pat))"

definition dataOf :: "document \<Rightarrow> nodeId \<Rightarrow> jstring option" where
  "dataOf d n = (case kindOf d n of Some (Text s) \<Rightarrow> Some s | _ \<Rightarrow> None)"

text \<open>
  The inner loop of the text case: while the data of \<open>text\<close> holds the marker, cut off what
  follows the marker (\<open>text\<close> becomes that new node), then, unless the marker is at the
  start, cut off the marker from what precedes it, and record the path of the node that
  now holds the marker alone.
\<close>

partial_function (option) splitMarkers ::
  "document \<Rightarrow> nodeId \<Rightarrow> nodeId \<Rightarrow> TemplateSlot list
     \<Rightarrow> (error + document \<times> TemplateSlot list) option" where
  "splitMarkers d root text acc =
     (case dataOf d text of
        None \<Rightarrow> Some (Inl TypeError)
      | Some s \<Rightarrow>
          (case indexOf s replacement of
             None \<Rightarrow> Some (Inr (d, acc))
           | Some dataIndex \<Rightarrow>
               (case splitText d text (dataIndex + 1) of
                  Inl e \<Rightarrow> Some (Inl e)
                | Inr (d1, text') \<Rightarrow>
                    (case (if dataIndex \<noteq> 0 then splitText d1 text dataIndex
                           else Inr (d1, text)) of
                       Inl e \<Rightarrow> Some (Inl e)
                     | Inr (d2, split) \<Rightarrow>
                         Option.bind (pathToNode d2 root split)
                           (\<lambda>r. case r of
                                  Inl e \<Rightarrow> Some (Inl e)
                                | Inr path \<Rightarrow>
                                    splitMarkers d2 root text'
                                      (acc @ [TemplateNodeSlot path]))))))"

text \<open>The element case: one slot for each attribute whose value is the marker.\<close>

fun attrSlots ::
  "document \<Rightarrow> nodeId \<Rightarrow> nodeId \<Rightarrow> (jstring \<times> jstring) list \<Rightarrow> TemplateSlot list
     \<Rightarrow> (error + TemplateSlot list) option" where
  "attrSlots d root el [] acc = Some (Inr acc)"
| "attrSlots d root el ((a, v) # as) acc =
     (if v = replacement
      then Option.bind (pathToNode d root el)
             (\<lambda>r. case r of
                    Inl e \<Rightarrow> Some (Inl e)
                  | Inr path \<Rightarrow> attrSlots d root el as (acc @ [TemplateAttrValueSlot path a]))
      else attrSlots d root el as acc)"

text \<open>The outer loop: the next node is fetched before the current one is handled.\<close>

partial_function (option) walk ::
  "document \<Rightarrow> nodeId \<Rightarrow> NodeIterator \<Rightarrow> nodeId option \<Rightarrow> TemplateSlot list
     \<Rightarrow> (error + document \<times> TemplateSlot list) option" where
  "walk d root it node acc =
     (case node of
        None \<Rightarrow> Some (Inr (d, acc))
      | Some n \<Rightarrow>
          (case nextNode d it of (next, it') \<Rightarrow>
            (case kindOf d n of
               Some (Text s) \<Rightarrow>
                 Option.bind (splitMarkers d root n acc)
                   (\<lambda>r. case r of
                          Inl e \<Rightarrow> Some (Inl e)
                        | Inr (d', acc') \<Rightarrow> walk d' root it' next acc')
             | Some (Element ns tag as) \<Rightarrow>
                 Option.bind (attrSlots d root n as acc)
                   (\<lambda>r. case r of
                          Inl e \<Rightarrow> Some (Inl e)
                        | Inr acc' \<Rightarrow> walk d root it' next acc')
             | _ \<Rightarrow> walk d root it' next acc)))"

text \<open>
  \<^verbatim>\<open>createTemplate(document, strings)\<close>. The parser is the host's; it is a parameter. The
  content fragment has identity 0 in the template's own document.
\<close>

definition parseTemplate :: "(jstring \<Rightarrow> html list) \<Rightarrow> jstring list \<Rightarrow> document" where
  "parseTemplate parseHTML strings =
     (case label 1 (parseHTML (join strings replacement)) of
        (cs, c) \<Rightarrow>
          \<lparr>roots = [Node 0 DocumentFragment cs], nextId = c, windowName = [], console = []\<rparr>)"

text \<open>
  \<^verbatim>\<open>createTemplate\<close> in two steps: the walk, from the first \<^verbatim>\<open>nextNode()\<close> to the end of the
  loop, which gives the document as the splits leave it and the slots found; then the
  comparison of their number with \<^verbatim>\<open>strings.length - 1\<close>.
\<close>

definition walkTemplate ::
  "(jstring \<Rightarrow> html list) \<Rightarrow> jstring list
     \<Rightarrow> (error + document \<times> TemplateSlot list) option" where
  "walkTemplate parseHTML strings =
     (let d = parseTemplate parseHTML strings
      in case nextNode d (createNodeIterator 0) of (node, it) \<Rightarrow> walk d 0 it node [])"

definition createTemplate ::
  "(jstring \<Rightarrow> html list) \<Rightarrow> jstring list \<Rightarrow> (error + Template) option" where
  "createTemplate parseHTML strings =
     Option.bind (walkTemplate parseHTML strings)
       (\<lambda>r. case r of
              Inl e \<Rightarrow> Some (Inl e)
            | Inr (d', acc) \<Rightarrow>
                if int (length acc) \<noteq> int (length strings) - 1
                then Some (Inl (Error
                       (utf16 ''Could not find all replacements in template: ''
                        @ join strings replacement)))
                else Some (Inr \<lparr>templateDocument = d', content = 0, slots = acc\<rparr>))"

section \<open>The update rule\<close>

text \<open>\<^verbatim>\<open>collectChildNodes\<close>: forward from \<open>startAfter\<close> up to \<open>endBefore\<close>, or, without a
  \<open>startAfter\<close>, backward from \<open>endBefore\<close> to the first sibling.\<close>

definition collectChildNodes ::
  "document \<Rightarrow> nodeId option \<Rightarrow> nodeId option \<Rightarrow> error + nodeId list" where
  "collectChildNodes d sa eb =
     (case sa of
        Some s \<Rightarrow> Inr (takeWhile (\<lambda>x. Some x \<noteq> eb) (followingSiblings d s))
      | None \<Rightarrow>
          (case eb of
             None \<Rightarrow> Inl TypeError
           | Some e \<Rightarrow> Inr (precedingSiblings d e)))"

text \<open>\<^verbatim>\<open>for (const node of current) if (node !== keep) node.remove()\<close>.\<close>

fun removeOthers :: "document \<Rightarrow> nodeId list \<Rightarrow> nodeId option \<Rightarrow> document" where
  "removeOthers d [] keep = d"
| "removeOthers d (x # xs) keep =
     removeOthers (if Some x \<noteq> keep then removeNode d x else d) xs keep"

definition isText :: "document \<Rightarrow> nodeId \<Rightarrow> bool" where
  "isText d n = (case kindOf d n of Some (Text s) \<Rightarrow> True | _ \<Rightarrow> False)"

definition updateNodeSlot ::
  "document \<Rightarrow> nodeId option \<Rightarrow> nodeId option \<Rightarrow> TemplateArgument \<Rightarrow> error + document" where
  "updateNodeSlot d sa eb arg =
     (case collectChildNodes d sa eb of
        Inl e \<Rightarrow> Inl e
      | Inr current \<Rightarrow>
          (case arg of
             AString s \<Rightarrow>
               (case find (isText d) current of
                  Some textNode \<Rightarrow> Inr (removeOthers (setData d textNode s) current (Some textNode))
                | None \<Rightarrow>
                    (case createTextNode d s of (d1, textNode) \<Rightarrow>
                      (case eb of
                         None \<Rightarrow> Inl TypeError
                       | Some e \<Rightarrow>
                           (case before d1 e textNode of
                              Inl er \<Rightarrow> Inl er
                            | Inr d2 \<Rightarrow> Inr (removeOthers d2 current (Some textNode))))))
           | ANode n \<Rightarrow>
               (if n \<notin> set current
                then (case eb of
                        None \<Rightarrow> Inl TypeError
                      | Some e \<Rightarrow>
                          (case before d e n of
                             Inl er \<Rightarrow> Inl er
                           | Inr d1 \<Rightarrow> Inr (removeOthers d1 current (Some n))))
                else Inr (removeOthers d current (Some n)))
           | _ \<Rightarrow> Inr (removeOthers d current None)))"

text \<open>\<^verbatim>\<open>updateAttrValueSlot\<close>. The warning's first value is the global \<^verbatim>\<open>name\<close>, as written
  in the source. The first argument is the host's rule for attribute names, which
  \<^verbatim>\<open>setAttribute\<close> needs; \<^verbatim>\<open>updateSlot\<close> and \<^verbatim>\<open>createTemplateInstance\<close> hand it down.\<close>

definition updateAttrValueSlot ::
  "(jstring \<Rightarrow> bool) \<Rightarrow> document \<Rightarrow> nodeId option \<Rightarrow> jstring \<Rightarrow> TemplateArgument
     \<Rightarrow> error + document" where
  "updateAttrValueSlot validName d el a arg =
     (case el of
        None \<Rightarrow> Inl TypeError
      | Some e \<Rightarrow>
          (case arg of
             AString s \<Rightarrow> setAttribute validName d e a s
           | ANode n \<Rightarrow>
               Inr (removeAttribute (d\<lparr>console := console d @ [(windowName d, arg)]\<rparr>) e a)
           | _ \<Rightarrow> Inr (removeAttribute d e a)))"

fun updateSlot ::
  "(jstring \<Rightarrow> bool) \<Rightarrow> document \<Rightarrow> TemplateInstanceSlot \<Rightarrow> TemplateArgument
     \<Rightarrow> error + document" where
  "updateSlot validName d (NodeSlot sa eb) arg = updateNodeSlot d sa eb arg"
| "updateSlot validName d (AttrValueSlot el a) arg = updateAttrValueSlot validName d el a arg"

section \<open>The instantiation engine (\<^verbatim>\<open>createTemplateInstance\<close>)\<close>

text \<open>The first loop resolves every template slot against the clone and pushes the
  anchor on \<open>slots\<close> and on the list of its kind.\<close>

fun collectSlots ::
  "document \<Rightarrow> nodeId \<Rightarrow> TemplateSlot list
     \<Rightarrow> TemplateInstanceSlot list \<times> TemplateInstanceSlot list \<times> TemplateInstanceSlot list
     \<Rightarrow> error + TemplateInstanceSlot list \<times> TemplateInstanceSlot list \<times> TemplateInstanceSlot list"
  where
  "collectSlots d frag [] acc = Inr acc"
| "collectSlots d frag (templateSlot # rest) (ss, ns, as) =
     (case nodeFromPath d (Some frag) (slotPath templateSlot) of
        Inl e \<Rightarrow> Inl e
      | Inr node \<Rightarrow>
          (case templateSlot of
             TemplateNodeSlot p \<Rightarrow>
               (case node of
                  None \<Rightarrow> Inl TypeError
                | Some n \<Rightarrow>
                    (let nodeSlot = NodeSlot (previousSibling d n) (nextSibling d n)
                     in collectSlots d frag rest (ss @ [nodeSlot], ns @ [nodeSlot], as)))
           | TemplateAttrValueSlot p a \<Rightarrow>
               (let attrValueSlot = AttrValueSlot node a
                in collectSlots d frag rest (ss @ [attrValueSlot], ns, as @ [attrValueSlot]))))"

text \<open>The second loop applies \<^verbatim>\<open>args[i]\<close> to \<^verbatim>\<open>slots[i]\<close>.\<close>

fun applyArgs ::
  "(jstring \<Rightarrow> bool) \<Rightarrow> document \<Rightarrow> TemplateInstanceSlot list \<Rightarrow> TemplateArgument list
     \<Rightarrow> error + document" where
  "applyArgs validName d [] args = Inr d"
| "applyArgs validName d (slot # rest) args =
     (case updateSlot validName d slot (case args of [] \<Rightarrow> AUndefined | arg # _ \<Rightarrow> arg) of
        Inl e \<Rightarrow> Inl e
      | Inr d' \<Rightarrow> applyArgs validName d' rest (tl args))"

definition createTemplateInstance ::
  "(jstring \<Rightarrow> bool) \<Rightarrow> document \<Rightarrow> Template \<Rightarrow> TemplateArgument list
     \<Rightarrow> error + document \<times> TemplateInstance" where
  "createTemplateInstance validName d template args =
     (case importNode d (templateDocument template) (content template) of
        Inl e \<Rightarrow> Inl e
      | Inr (d1, frag) \<Rightarrow>
          (case collectSlots d1 frag (slots template) ([], [], []) of
             Inl e \<Rightarrow> Inl e
           | Inr (ss, ns, as) \<Rightarrow>
               (case applyArgs validName d1 ss args of
                  Inl e \<Rightarrow> Inl e
                | Inr d2 \<Rightarrow>
                    Inr (d2, \<lparr>fragment = frag, instanceSlots = ss, nodeSlots = ns,
                              attrValueSlots = as\<rparr>))))"

section \<open>Vocabulary of the proofs\<close>

text \<open>The identities of a forest in tree order. A store is well formed when no identity
  occurs twice and every identity in use is below the next unused one.\<close>

definition ids :: "node list \<Rightarrow> nodeId list" where
  "ids f = map nid (preorder f)"

definition wfDoc :: "document \<Rightarrow> bool" where
  "wfDoc d \<longleftrightarrow> distinct (ids (roots d)) \<and> (\<forall>i\<in>set (ids (roots d)). i < nextId d)"

text \<open>Going down a tree along a path.\<close>

fun nav :: "node \<Rightarrow> NodePath \<Rightarrow> node option" where
  "nav x [] = Some x"
| "nav x (j # p) = (if j < length (kids x) then nav (kids x ! j) p else None)"

text \<open>The node that \<open>updKind\<close> makes of a node.\<close>

definition updNode :: "nodeId \<Rightarrow> (kind \<Rightarrow> kind) \<Rightarrow> node \<Rightarrow> node" where
  "updNode n g x = Node (nid x) (if nid x = n then g (nkind x) else nkind x) (updKind n g (kids x))"

text \<open>
  Resolving one slot descriptor against a clone, as the specification words it: the node
  at the descriptor's address; for a node slot the anchor is the pair of its previous and
  next sibling, for an attribute slot the node and the attribute's name. \<open>argAt\<close> is
  \<^verbatim>\<open>args[i]\<close>.
\<close>

definition resolveAnchor :: "document \<Rightarrow> nodeId \<Rightarrow> TemplateSlot \<Rightarrow> error + TemplateInstanceSlot" where
  "resolveAnchor d frag templateSlot =
     (case nodeFromPath d (Some frag) (slotPath templateSlot) of
        Inl e \<Rightarrow> Inl e
      | Inr node \<Rightarrow>
          (case templateSlot of
             TemplateNodeSlot p \<Rightarrow>
               (case node of
                  None \<Rightarrow> Inl TypeError
                | Some n \<Rightarrow> Inr (NodeSlot (previousSibling d n) (nextSibling d n)))
           | TemplateAttrValueSlot p a \<Rightarrow> Inr (AttrValueSlot node a)))"

definition argAt :: "TemplateArgument list \<Rightarrow> nat \<Rightarrow> TemplateArgument" where
  "argAt args i = (if i < length args then args ! i else AUndefined)"

text \<open>A small document for the examples: a fragment holding a paragraph with two text
  nodes.\<close>

definition exampleDoc :: document where
  "exampleDoc =
     \<lparr>roots = [Node 0 DocumentFragment
                [Node 1 (Element HTML (utf16 ''p'') [(utf16 ''class'', utf16 ''a'')])
                   [Node 2 (Text (utf16 ''x'')) [], Node 3 (Text []) []]]],
      nextId = 4, windowName = [], console = []\<rparr>"

text \<open>An empty document, and a parser that knows the markup of the first end-to-end
  scenario: a paragraph holding the marker.\<close>

definition emptyDocument :: document where
  "emptyDocument = \<lparr>roots = [], nextId = 0, windowName = [], console = []\<rparr>"

definition paragraphParser :: "jstring \<Rightarrow> html list" where
  "paragraphParser s =
     (if s = utf16 ''<p>'' @ replacement @ utf16 ''</p>''
      then [HElement HTML (utf16 ''p'') [] [HText replacement]] else [])"

text \<open>A rule for attribute names, for the instances below: the valid attribute local
  names of the DOM standard (not empty; no ASCII whitespace, U+0000, \<^verbatim>\<open>/\<close>, \<^verbatim>\<open>=\<close> or \<^verbatim>\<open>>\<close>).\<close>

definition validAttributeLocalName :: "jstring \<Rightarrow> bool" where
  "validAttributeLocalName a \<longleftrightarrow>
     a \<noteq> [] \<and> set a \<inter> {0x09, 0x0A, 0x0C, 0x0D, 0x20, 0x00, 0x2F, 0x3D, 0x3E} = {}"

text \<open>The compiled template of that scenario, and the document that instantiating it with
  \<^verbatim>\<open>"hello"\<close> in a document \<open>d\<close> gives.\<close>

definition scenario1Template :: Template where
  "scenario1Template =
     \<lparr>templateDocument =
        \<lparr>roots = [Node 0 DocumentFragment
                   [Node 1 (Element HTML (utf16 ''p'') [])
                      [Node 2 (Text replacement) [], Node 3 (Text []) []]]],
         nextId = 4, windowName = [], console = []\<rparr>,
      content = 0, slots = [TemplateNodeSlot [0, 0]]\<rparr>"

definition scenario1Result :: "document \<Rightarrow> document" where
  "scenario1Result d =
     d\<lparr>roots := roots d @
          [Node (nextId d) DocumentFragment
             [Node (nextId d + 1) (Element HTML (utf16 ''p'') [])
                [Node (nextId d + 2) (Text (utf16 ''hello'')) [],
                 Node (nextId d + 3) (Text []) []]]],
       nextId := nextId d + 4\<rparr>"


text \<open>
  The identity and kind of every node, in tree order; the children of the parent of a
  node, by identity; and what \<open>prune\<close>, \<open>insBefore\<close> and \<open>dropKids\<close> make of a node.
\<close>

definition entries :: "node list \<Rightarrow> (nodeId \<times> kind) list" where
  "entries f = map (\<lambda>x. (nid x, nkind x)) (preorder f)"

definition siblingIds :: "document \<Rightarrow> nodeId \<Rightarrow> nodeId list" where
  "siblingIds d n = (case parentOf n (roots d) of None \<Rightarrow> [] | Some p \<Rightarrow> map nid (kids p))"

definition pruneNode :: "nodeId \<Rightarrow> node \<Rightarrow> node" where
  "pruneNode x y = Node (nid y) (nkind y) (prune x (kids y))"

definition insNode :: "nodeId \<Rightarrow> node list \<Rightarrow> node \<Rightarrow> node" where
  "insNode r ns y = Node (nid y) (nkind y) (insBefore r ns (kids y))"

definition dropNode :: "nodeId \<Rightarrow> node \<Rightarrow> node" where
  "dropNode n y = Node (nid y) (nkind y) (if nid y = n then [] else dropKids n (kids y))"

text \<open>Putting identities before \<open>r\<close> in a list of siblings, and the part of a list of
  siblings that lies between two boundaries.\<close>

definition insertBefore :: "nodeId \<Rightarrow> nodeId list \<Rightarrow> nodeId list \<Rightarrow> nodeId list" where
  "insertBefore r ms K = concat (map (\<lambda>c. if c = r then ms @ [c] else [c]) K)"

definition between :: "nodeId option \<Rightarrow> nodeId \<Rightarrow> nodeId list \<Rightarrow> nodeId list" where
  "between sa eb K =
     (case sa of None \<Rightarrow> takeWhile (\<lambda>i. i \<noteq> eb) K
      | Some s \<Rightarrow> takeWhile (\<lambda>i. i \<noteq> eb) (tl (dropWhile (\<lambda>i. i \<noteq> s) K)))"

text \<open>
  An anchor is in place in a document when the document is well formed, the
  after-boundary has a parent, and the before-boundary, if there is one, is a sibling
  that precedes the after-boundary.
\<close>

definition anchored :: "document \<Rightarrow> nodeId option \<Rightarrow> nodeId \<Rightarrow> bool" where
  "anchored d sa eb \<longleftrightarrow>
     wfDoc d \<and> parentNode d eb \<noteq> None
     \<and> (case sa of None \<Rightarrow> True | Some s \<Rightarrow> s \<in> set (precedingSiblings d eb))"

text \<open>The example document with one more parentless node, an element.\<close>

definition exampleDoc2 :: document where
  "exampleDoc2 =
     \<lparr>roots = [Node 0 DocumentFragment
                [Node 1 (Element HTML (utf16 ''p'') [])
                   [Node 2 (Text (utf16 ''x'')) [], Node 3 (Text []) []]],
               Node 4 (Element HTML (utf16 ''b'') []) []],
      nextId = 5, windowName = [], console = []\<rparr>"

subsection \<open>Two adjacent interpolations\<close>

text \<open>
  A parser that knows the markup of \<^verbatim>\<open><div>${a}${b}</div>\<close>, and the template that
  \<^verbatim>\<open>createTemplate\<close> makes of it: the marker node of each slot is a boundary of the other.
\<close>

definition adjacentParser :: "jstring \<Rightarrow> html list" where
  "adjacentParser s =
     (if s = utf16 ''<div>'' @ replacement @ replacement @ utf16 ''</div>''
      then [HElement HTML (utf16 ''div'') [] [HText (replacement @ replacement)]] else [])"

definition adjacentTemplate :: Template where
  "adjacentTemplate =
     \<lparr>templateDocument =
        \<lparr>roots = [Node 0 DocumentFragment
                   [Node 1 (Element HTML (utf16 ''div'') [])
                      [Node 2 (Text replacement) [], Node 3 (Text replacement) [],
                       Node 4 (Text []) []]]],
         nextId = 5, windowName = [], console = []\<rparr>,
      content = 0, slots = [TemplateNodeSlot [0, 0], TemplateNodeSlot [0, 1]]\<rparr>"

text \<open>
  Its instance in the empty document, after the first slot has been emptied: node 2, the
  second slot's before-boundary, is parentless, and \<open>texts\<close> stand between node 3 and the
  second slot's after-boundary, node 4. And its instance after the first slot has got
  the string \<^verbatim>\<open>"x"\<close> and the second slot has been emptied: node 3, the first slot's
  after-boundary, is parentless, and \<open>texts\<close> are further parentless nodes.
\<close>

definition secondSlotDoc :: "node list \<Rightarrow> document" where
  "secondSlotDoc texts =
     \<lparr>roots = [Node 0 DocumentFragment
                [Node 1 (Element HTML (utf16 ''div'') [])
                   (Node 3 (Text replacement) [] # texts @ [Node 4 (Text []) []])],
               Node 2 (Text replacement) []],
      nextId = 5 + length texts, windowName = [], console = []\<rparr>"

definition firstSlotDoc :: "node list \<Rightarrow> document" where
  "firstSlotDoc texts =
     \<lparr>roots = [Node 0 DocumentFragment
                [Node 1 (Element HTML (utf16 ''div'') [])
                   [Node 2 (Text (utf16 ''x'')) [], Node 4 (Text []) []]],
               Node 3 (Text replacement) []] @ texts,
      nextId = 5 + length texts, windowName = [], console = []\<rparr>"

text \<open>A paragraph with a region between its first child, node 2, and its last, node 4;
  \<open>others\<close> are parentless nodes.\<close>

definition regionDoc :: "node list \<Rightarrow> node list \<Rightarrow> document" where
  "regionDoc region others =
     \<lparr>roots = [Node 0 DocumentFragment
                [Node 1 (Element HTML (utf16 ''p'') [])
                   (Node 2 (Text (utf16 ''a'')) [] # region @ [Node 4 (Text []) []])]] @ others,
      nextId = 4 + length region + length others, windowName = [], console = []\<rparr>"

subsection \<open>The template under compilation\<close>

text \<open>
  The document of a template while \<^verbatim>\<open>createTemplate\<close> walks it: one root, the content
  fragment with identity 0, distinct identities below the counter, and no text node with
  children.
\<close>

definition leafy :: "node list \<Rightarrow> bool" where
  "leafy f \<longleftrightarrow> (\<forall>x\<in>set (preorder f). \<forall>s. nkind x = Text s \<longrightarrow> kids x = [])"

definition textAt :: "nodeId \<Rightarrow> node list \<Rightarrow> bool" where
  "textAt t f \<longleftrightarrow> (\<forall>x\<in>set (preorder f). nid x = t \<longrightarrow> (\<exists>s. nkind x = Text s))"

definition rootKids :: "document \<Rightarrow> node list" where
  "rootKids d = (case roots d of [x] \<Rightarrow> kids x | _ \<Rightarrow> [])"

definition templateState :: "document \<Rightarrow> bool" where
  "templateState d \<longleftrightarrow>
     (\<exists>cs. roots d = [Node 0 DocumentFragment cs]) \<and> wfDoc d \<and> leafy (roots d)"

text \<open>What \<open>splitIn\<close> does to a list of sibling identities, to a kind, to a node and to an
  entry of the tree order.\<close>

definition insertAfter :: "nodeId \<Rightarrow> nodeId \<Rightarrow> nodeId list \<Rightarrow> nodeId list" where
  "insertAfter t c K = concat (map (\<lambda>i. if i = t then [i, c] else [i]) K)"

fun splitKind :: "nat \<Rightarrow> kind \<Rightarrow> kind" where
  "splitKind off (Text s) = Text (take off s)"
| "splitKind off k = k"

fun restKind :: "nat \<Rightarrow> kind \<Rightarrow> kind" where
  "restKind off (Text s) = Text (drop off s)"
| "restKind off k = k"

definition splitNode :: "nodeId \<Rightarrow> nat \<Rightarrow> nodeId \<Rightarrow> node \<Rightarrow> node" where
  "splitNode t off c y =
     Node (nid y) (if nid y = t then splitKind off (nkind y) else nkind y)
       (splitIn t off c (kids y))"

fun splitEntry :: "nodeId \<Rightarrow> nat \<Rightarrow> nodeId \<Rightarrow> nodeId \<times> kind \<Rightarrow> (nodeId \<times> kind) list" where
  "splitEntry t off c (i, Text s) =
     (if i = t then [(i, Text (take off s)), (c, Text (drop off s))] else [(i, Text s)])"
| "splitEntry t off c (i, k) = [(i, k)]"

text \<open>The path of the node with identity \<open>s\<close> in a forest whose trees are the children of
  the node the path starts from: the index among the siblings at each level.\<close>

fun pathIn :: "nodeId \<Rightarrow> node list \<Rightarrow> NodePath option" where
  "pathIn s [] = None"
| "pathIn s (Node i k cs # xs) =
     (if i = s then Some [0]
      else case pathIn s cs of
             Some p \<Rightarrow> Some (0 # p)
           | None \<Rightarrow> (case pathIn s xs of Some (j # q) \<Rightarrow> Some (Suc j # q) | _ \<Rightarrow> None))"

text \<open>Having a next sibling; the kinds that the iterator of \<^verbatim>\<open>createTemplate\<close> shows; and
  what the walk keeps true of a slot it has pushed: its path is the path, in the template
  as it is now, of a node among those already visited, and for a node slot that node has
  a next sibling.\<close>

definition hasNext :: "document \<Rightarrow> nodeId \<Rightarrow> bool" where
  "hasNext d s \<longleftrightarrow> nextSibling d s \<noteq> None"

fun shownK :: "kind \<Rightarrow> bool" where
  "shownK (Element ns tag as) = True"
| "shownK (Text s) = True"
| "shownK k = False"

definition recorded :: "document \<Rightarrow> nodeId set \<Rightarrow> TemplateSlot \<Rightarrow> bool" where
  "recorded d B slot \<longleftrightarrow>
     (\<exists>s\<in>B. pathIn s (rootKids d) = Some (slotPath slot)
        \<and> (case slot of TemplateNodeSlot p \<Rightarrow> hasNext d s | TemplateAttrValueSlot p a \<Rightarrow> True))"

text \<open>A tree without its identities, and whether a path leads to a node that has a next
  sibling: both are the same in a tree and in its clone.\<close>

fun strip :: "node \<Rightarrow> node" where
  "strip (Node i k cs) = Node 0 k (map strip cs)"

fun navNext :: "node \<Rightarrow> NodePath \<Rightarrow> bool" where
  "navNext x [] = False"
| "navNext x (j # p) =
     (j < length (kids x) \<and> (if p = [] then Suc j < length (kids x) else navNext (kids x ! j) p))"

section \<open>Forests\<close>

lemma preorder_append: "preorder (xs @ ys) = preorder xs @ preorder ys"
  by (induction xs rule: preorder.induct) auto

lemma ids_simps [simp]:
  "ids [] = []"
  "ids (Node i k cs # xs) = i # ids cs @ ids xs"
  "ids (xs @ ys) = ids xs @ ids ys"
  by (simp_all add: ids_def preorder_append)

lemma toplevel_preorder: "x \<in> set f \<Longrightarrow> x \<in> set (preorder f)"
  by (induction f rule: preorder.induct) auto

lemma kids_preorder: "x \<in> set (preorder f) \<Longrightarrow> set (preorder (kids x)) \<subseteq> set (preorder f)"
  by (induction f rule: preorder.induct) auto

lemma child_preorder: "x \<in> set (preorder f) \<Longrightarrow> y \<in> set (kids x) \<Longrightarrow> y \<in> set (preorder f)"
  using kids_preorder toplevel_preorder by blast

lemma nid_in_ids: "x \<in> set (preorder f) \<Longrightarrow> nid x \<in> set (ids f)"
  by (simp add: ids_def)

lemma child_in_ids: "x \<in> set (preorder f) \<Longrightarrow> y \<in> set (kids x) \<Longrightarrow> nid y \<in> set (ids f)"
  using child_preorder nid_in_ids by blast

lemma find_distinct_key:
  "distinct (map g xs) \<Longrightarrow> x \<in> set xs \<Longrightarrow> find (\<lambda>y. g y = g x) xs = Some x"
  by (induction xs) (auto simp: rev_image_eqI)

lemma findNode_distinct:
  "distinct (ids f) \<Longrightarrow> x \<in> set (preorder f) \<Longrightarrow> findNode (nid x) f = Some x"
  unfolding findNode_def ids_def by (rule find_distinct_key)

lemma find_append:
  "find P (xs @ ys) = (case find P xs of None \<Rightarrow> find P ys | Some x \<Rightarrow> Some x)"
  by (induction xs) auto

lemma find_map: "find P (map h xs) = map_option h (find (\<lambda>x. P (h x)) xs)"
  by (induction xs) auto

lemma child_not_toplevel:
  "distinct (ids cs) \<Longrightarrow> c \<in> set cs \<Longrightarrow> z \<in> set (preorder cs) \<Longrightarrow> y \<in> set (kids z)
     \<Longrightarrow> nid y \<noteq> nid c"
proof (induction cs rule: preorder.induct)
  case 1
  then show ?case by simp
next
  case (2 i k ds xs)
  from "2.prems"(1) have dc: "distinct (ids ds)" and dx: "distinct (ids xs)"
    and i1: "i \<notin> set (ids ds)" and i2: "i \<notin> set (ids xs)"
    and dj: "set (ids ds) \<inter> set (ids xs) = {}" by auto
  from "2.prems"(3) consider "z = Node i k ds" | "z \<in> set (preorder ds)" | "z \<in> set (preorder xs)"
    by auto
  then show ?case
  proof cases
    case 1
    then have "nid y \<in> set (ids ds)" using "2.prems"(4) by (auto dest: toplevel_preorder nid_in_ids)
    moreover have "nid c = i \<or> nid c \<in> set (ids xs)"
      using "2.prems"(2) by (auto dest: toplevel_preorder nid_in_ids)
    ultimately show ?thesis using i1 dj by auto
  next
    case 2
    then have "nid y \<in> set (ids ds)" using "2.prems"(4) by (rule child_in_ids)
    moreover have "nid c = i \<or> nid c \<in> set (ids xs)"
      using "2.prems"(2) by (auto dest: toplevel_preorder nid_in_ids)
    ultimately show ?thesis using i1 dj by auto
  next
    case 3
    then have a: "nid y \<in> set (ids xs)" using "2.prems"(4) by (rule child_in_ids)
    show ?thesis
    proof (cases "c = Node i k ds")
      case True
      then show ?thesis using a i2 by auto
    next
      case False
      then have "c \<in> set xs" using "2.prems"(2) by simp
      then show ?thesis using "2.IH"(2)[OF dx _ 3 "2.prems"(4)] by simp
    qed
  qed
qed

lemma parentOf_simps [simp]:
  "parentOf n [] = None"
  "parentOf n (Node i k cs # xs) =
     (if n \<in> nid ` set cs then Some (Node i k cs)
      else case parentOf n cs of Some p \<Rightarrow> Some p | None \<Rightarrow> parentOf n xs)"
  by (auto simp: parentOf_def find_append split: option.splits)

lemma parentOf_None: "n \<notin> set (ids f) \<Longrightarrow> parentOf n f = None"
  by (induction f rule: preorder.induct) (auto simp: ids_def toplevel_preorder image_iff dest: toplevel_preorder)

lemma parentOf_distinct:
  "distinct (ids f) \<Longrightarrow> z \<in> set (preorder f) \<Longrightarrow> y \<in> set (kids z) \<Longrightarrow> parentOf (nid y) f = Some z"
proof (induction f rule: preorder.induct)
  case 1
  then show ?case by simp
next
  case (2 i k cs xs)
  from "2.prems"(1) have dc: "distinct (ids cs)" and dx: "distinct (ids xs)"
    and i1: "i \<notin> set (ids cs)" and i2: "i \<notin> set (ids xs)"
    and dj: "set (ids cs) \<inter> set (ids xs) = {}" by auto
  from "2.prems"(2) consider "z = Node i k cs" | "z \<in> set (preorder cs)" | "z \<in> set (preorder xs)"
    by auto
  then show ?case
  proof cases
    case 1
    with "2.prems"(3) show ?thesis by auto
  next
    case 2
    have a: "nid y \<in> set (ids cs)" using 2 "2.prems"(3) by (rule child_in_ids)
    have "nid y \<notin> nid ` set cs"
      using child_not_toplevel[OF dc _ 2 "2.prems"(3)] by auto
    then show ?thesis using "2.IH"(1)[OF dc 2 "2.prems"(3)] by simp
  next
    case 3
    have a: "nid y \<in> set (ids xs)" using 3 "2.prems"(3) by (rule child_in_ids)
    then have b: "nid y \<notin> set (ids cs)" using dj by auto
    then have "nid y \<notin> nid ` set cs" using toplevel_preorder nid_in_ids by (metis imageE)
    moreover have "parentOf (nid y) cs = None" using b by (rule parentOf_None)
    ultimately show ?thesis using "2.IH"(2)[OF dx 3 "2.prems"(3)] by simp
  qed
qed

lemma findNode_simps [simp]:
  "findNode n [] = None"
  "findNode n (Node i k cs # xs) =
     (if i = n then Some (Node i k cs)
      else case findNode n cs of Some x \<Rightarrow> Some x | None \<Rightarrow> findNode n xs)"
  by (auto simp: findNode_def find_append split: option.splits)

lemma distinct_toplevel: "distinct (ids f) \<Longrightarrow> distinct (map nid f)"
proof (induction f rule: preorder.induct)
  case 1
  then show ?case by simp
next
  case (2 i k cs xs)
  then have "i \<notin> nid ` set xs" by (auto dest!: toplevel_preorder nid_in_ids)
  with 2 show ?case by auto
qed

lemma distinct_kids_ids: "distinct (ids f) \<Longrightarrow> x \<in> set (preorder f) \<Longrightarrow> distinct (ids (kids x))"
  by (induction f rule: preorder.induct) auto

lemma distinct_kids: "distinct (ids f) \<Longrightarrow> x \<in> set (preorder f) \<Longrightarrow> distinct (map nid (kids x))"
  using distinct_kids_ids distinct_toplevel by blast

lemma self_not_under: "distinct (ids f) \<Longrightarrow> x \<in> set (preorder f) \<Longrightarrow> nid x \<notin> set (ids (kids x))"
  by (induction f rule: preorder.induct) auto

lemma takeWhile_nth_distinct:
  "distinct (map g xs) \<Longrightarrow> j < length xs \<Longrightarrow> length (takeWhile (\<lambda>x. g x \<noteq> g (xs ! j)) xs) = j"
proof (induction xs arbitrary: j)
  case Nil
  then show ?case by simp
next
  case (Cons a xs)
  then show ?case by (cases j) (auto simp: image_iff)
qed

lemma nav_append:
  "nav x (p @ q) = (case nav x p of None \<Rightarrow> None | Some y \<Rightarrow> nav y q)"
  by (induction p arbitrary: x) auto

lemma nav_preorder: "x \<in> set (preorder f) \<Longrightarrow> nav x p = Some y \<Longrightarrow> y \<in> set (preorder f)"
proof (induction p arbitrary: x)
  case Nil
  then show ?case by simp
next
  case (Cons j p)
  then have "kids x ! j \<in> set (preorder f)"
    by (auto intro: child_preorder split: if_splits)
  with Cons show ?case by (auto split: if_splits)
qed

lemma preorder_nav: "y \<in> set (preorder f) \<Longrightarrow> \<exists>x\<in>set f. \<exists>p. nav x p = Some y"
proof (induction f rule: preorder.induct)
  case 1
  then show ?case by simp
next
  case (2 i k cs xs)
  from "2.prems" consider "y = Node i k cs" | "y \<in> set (preorder cs)" | "y \<in> set (preorder xs)"
    by auto
  then show ?case
  proof cases
    case 1
    then have "nav (Node i k cs) [] = Some y" by simp
    then show ?thesis by (metis list.set_intros(1))
  next
    case 2
    then obtain c p where c: "c \<in> set cs" and p: "nav c p = Some y" using "2.IH"(1) by blast
    from c obtain j where "j < length cs" "cs ! j = c" by (auto simp: in_set_conv_nth)
    then have "nav (Node i k cs) (j # p) = Some y" using p by simp
    then show ?thesis by (metis list.set_intros(1))
  next
    case 3
    then show ?thesis using "2.IH"(2) by auto
  qed
qed

lemma childAt_distinct:
  assumes "distinct (ids (roots d))" "x \<in> set (preorder (roots d))" "j < length (kids x)"
  shows "childAt d (nid x) j = Some (nid (kids x ! j))"
  using assms by (simp add: childAt_def findNode_distinct)

lemma nodeFromPath_nav:
  "distinct (ids (roots d)) \<Longrightarrow> x \<in> set (preorder (roots d)) \<Longrightarrow> nav x p = Some y
     \<Longrightarrow> nodeFromPath d (Some (nid x)) p = Inr (Some (nid y))"
proof (induction p arbitrary: x)
  case Nil
  then show ?case by simp
next
  case (Cons j p)
  from Cons.prems(3) have j: "j < length (kids x)" and n: "nav (kids x ! j) p = Some y"
    by (auto split: if_splits)
  have "kids x ! j \<in> set (preorder (roots d))"
    using Cons.prems(2) j by (auto intro: child_preorder)
  from Cons.IH[OF Cons.prems(1) this n] show ?case
    using childAt_distinct[OF Cons.prems(1,2) j] by simp
qed

lemma nav_proper:
  "nav x p = Some y \<Longrightarrow> p \<noteq> [] \<Longrightarrow> y \<in> set (preorder (kids x))"
proof (cases p)
  case Nil
  assume "p \<noteq> []" with Nil show ?thesis by simp
next
  case (Cons j q)
  assume a: "nav x p = Some y"
  with Cons have j: "j < length (kids x)" and n: "nav (kids x ! j) q = Some y"
    by (auto split: if_splits)
  have "kids x ! j \<in> set (preorder (kids x))" using j by (auto intro: toplevel_preorder)
  then show ?thesis using n by (rule nav_preorder)
qed

lemma pathToNodeLoop_nav:
  "distinct (ids (roots d)) \<Longrightarrow> x \<in> set (preorder (roots d)) \<Longrightarrow> nav x p = Some y
     \<Longrightarrow> pathToNodeLoop d (nid x) (Some (nid y)) acc = Some (Inr (p @ acc))"
proof (induction p arbitrary: y acc rule: rev_induct)
  case Nil
  then show ?case by (subst pathToNodeLoop.simps) simp
next
  case (snoc j q)
  from snoc.prems(3) obtain z where z: "nav x q = Some z" and j: "j < length (kids z)"
    and y: "y = kids z ! j"
    by (auto simp: nav_append split: option.splits if_splits)
  have zin: "z \<in> set (preorder (roots d))" using snoc.prems(2) z by (rule nav_preorder)
  have yk: "y \<in> set (kids z)" using j y by simp
  have "y \<in> set (preorder (kids x))" using snoc.prems(3) by (rule nav_proper) simp
  then have ne: "nid y \<noteq> nid x"
    using self_not_under[OF snoc.prems(1,2)] by (auto dest: nid_in_ids)
  have par: "parentOf (nid y) (roots d) = Some z"
    using snoc.prems(1) zin yk by (rule parentOf_distinct)
  have len: "length (precedingSiblings d (nid y)) = j"
    using takeWhile_nth_distinct[OF distinct_kids[OF snoc.prems(1) zin] j]
    using par unfolding precedingSiblings_def y by simp
  have "pathToNodeLoop d (nid x) (Some (nid y)) acc
        = pathToNodeLoop d (nid x) (Some (nid z)) (j # acc)"
    by (subst pathToNodeLoop.simps) (simp add: ne parentNode_def par len)
  also have "\<dots> = Some (Inr (q @ j # acc))"
    using snoc.IH[OF snoc.prems(1,2) z] .
  finally show ?case by simp
qed

section \<open>Changing the kind of a node\<close>

lemma preorder_updKind: "preorder (updKind n g f) = map (updNode n g) (preorder f)"
  by (induction f rule: preorder.induct) (auto simp: updNode_def)

lemma nid_updNode [simp]: "nid (updNode n g x) = nid x"
  by (simp add: updNode_def)

lemma map_nid_updKind [simp]: "map nid (updKind n g f) = map nid f"
  by (induction f rule: updKind.induct) auto

lemma kids_updNode [simp]: "kids (updNode n g x) = updKind n g (kids x)"
  by (simp add: updNode_def)

lemma nkind_updNode: "nkind (updNode n g x) = (if nid x = n then g (nkind x) else nkind x)"
  by (simp add: updNode_def)

lemma ids_updKind [simp]: "ids (updKind n g f) = ids f"
  by (simp add: ids_def preorder_updKind comp_def)

lemma findNode_updKind: "findNode m (updKind n g f) = map_option (updNode n g) (findNode m f)"
  by (simp add: findNode_def preorder_updKind find_map)

lemma set_nid_updKind: "nid ` set (updKind n g f) = nid ` set f"
  by (metis list.set_map map_nid_updKind)

lemma parentOf_updKind: "parentOf m (updKind n g f) = map_option (updNode n g) (parentOf m f)"
  by (simp add: parentOf_def preorder_updKind find_map set_nid_updKind)

lemma takeWhile_updKind:
  "map nid (takeWhile (\<lambda>x. nid x \<noteq> m) (updKind n g f)) = map nid (takeWhile (\<lambda>x. nid x \<noteq> m) f)"
  by (induction f rule: updKind.induct) auto

lemma dropWhile_updKind:
  "map nid (dropWhile (\<lambda>x. nid x \<noteq> m) (updKind n g f)) = map nid (dropWhile (\<lambda>x. nid x \<noteq> m) f)"
  by (induction f rule: updKind.induct) auto

lemma tl_dropWhile_updKind:
  "map nid (tl (dropWhile (\<lambda>x. nid x \<noteq> m) (updKind n g f)))
     = map nid (tl (dropWhile (\<lambda>x. nid x \<noteq> m) f))"
  by (simp add: map_tl dropWhile_updKind)

lemma updKind_nth: "j < length f \<Longrightarrow> nid (updKind n g f ! j) = nid (f ! j)"
  by (metis length_map map_nid_updKind nth_map)

lemma length_updKind [simp]: "length (updKind n g f) = length f"
  by (metis length_map map_nid_updKind)

lemma findNode_nid: "findNode m f = Some x \<Longrightarrow> nid x = m"
  by (auto simp: findNode_def find_Some_iff)

lemma findNode_in: "findNode m f = Some x \<Longrightarrow> x \<in> set (preorder f)"
  by (auto simp: findNode_def find_Some_iff)

lemma nkind_findNode_updKind:
  "map_option nkind (findNode m (updKind n g f))
     = map_option (\<lambda>k. if m = n then g k else k) (map_option nkind (findNode m f))"
  by (cases "findNode m f") (auto simp: findNode_updKind nkind_updNode dest: findNode_nid)

text \<open>What changing the kind of one node leaves alone.\<close>

lemma updKind_frame:
  assumes "roots d' = updKind e g (roots d)"
  shows "parentNode d' n = parentNode d n"
    and "childAt d' n j = childAt d n j"
    and "precedingSiblings d' n = precedingSiblings d n"
    and "followingSiblings d' n = followingSiblings d n"
    and "ids (roots d') = ids (roots d)"
    and "n \<noteq> e \<Longrightarrow> kindOf d' n = kindOf d n"
    and "kindOf d' e = map_option g (kindOf d e)"
proof -
  show "parentNode d' n = parentNode d n"
    by (simp add: parentNode_def assms parentOf_updKind option.map_comp comp_def)
  show "childAt d' n j = childAt d n j"
    by (auto simp: childAt_def assms findNode_updKind updKind_nth split: option.splits)
  show "precedingSiblings d' n = precedingSiblings d n"
    by (auto simp: precedingSiblings_def assms parentOf_updKind takeWhile_updKind split: option.splits)
  show "followingSiblings d' n = followingSiblings d n"
    by (auto simp: followingSiblings_def assms parentOf_updKind tl_dropWhile_updKind
        split: option.splits)
  show "ids (roots d') = ids (roots d)" by (simp add: assms)
  show "n \<noteq> e \<Longrightarrow> kindOf d' n = kindOf d n"
    by (simp add: kindOf_def assms nkind_findNode_updKind option.map_ident)
  show "kindOf d' e = map_option g (kindOf d e)"
    by (simp add: kindOf_def assms nkind_findNode_updKind)
qed


section \<open>The address resolver\<close>

text \<open>
  C8. In a store without repeated identities, for a node \<open>root\<close> and a \<open>target\<close> that is
  \<open>root\<close> itself or one of its descendants, \<^verbatim>\<open>pathToNode(root, target)\<close> returns a path, and
  \<^verbatim>\<open>nodeFromPath(root, path)\<close> on the unmodified tree returns \<open>target\<close> again.
\<close>

theorem path_roundtrip:
  assumes "distinct (ids (roots d))"
    and "findNode root (roots d) = Some x"
    and "target \<in> set (ids [x])"
  shows "\<exists>p. pathToNode d root target = Some (Inr p)
           \<and> nodeFromPath d (Some root) p = Inr (Some target)"
proof -
  from assms(2) have xin: "x \<in> set (preorder (roots d))" and xr: "nid x = root"
    by (auto simp: findNode_def find_Some_iff in_set_conv_nth)
  from assms(3) obtain y where y: "y \<in> set (preorder [x])" and yt: "nid y = target"
    by (auto simp: ids_def)
  from preorder_nav[OF y] obtain p where p: "nav x p = Some y" by auto
  have "pathToNode d root target = Some (Inr p)"
    using pathToNodeLoop_nav[OF assms(1) xin p, of "[]"] by (simp add: pathToNode_def xr yt)
  moreover have "nodeFromPath d (Some root) p = Inr (Some target)"
    using nodeFromPath_nav[OF assms(1) xin p] by (simp add: xr yt)
  ultimately show ?thesis by blast
qed

theorem path_roundtrip_witness:
  "distinct (ids (roots exampleDoc))
   \<and> findNode 1 (roots exampleDoc)
       = Some (Node 1 (Element HTML (utf16 ''p'') [(utf16 ''class'', utf16 ''a'')])
                 [Node 2 (Text (utf16 ''x'')) [], Node 3 (Text []) []])
   \<and> 3 \<in> set (ids [Node 1 (Element HTML (utf16 ''p'') [(utf16 ''class'', utf16 ''a'')])
                        [Node 2 (Text (utf16 ''x'')) [], Node 3 (Text []) []]])
   \<and> (\<exists>p. pathToNode exampleDoc 1 3 = Some (Inr p)
            \<and> nodeFromPath exampleDoc (Some 1) p = Inr (Some 3))"
proof -
  have a: "distinct (ids (roots exampleDoc))" by (simp add: exampleDoc_def)
  have b: "findNode 1 (roots exampleDoc)
       = Some (Node 1 (Element HTML (utf16 ''p'') [(utf16 ''class'', utf16 ''a'')])
                 [Node 2 (Text (utf16 ''x'')) [], Node 3 (Text []) []])"
    by (simp add: exampleDoc_def)
  have c: "3 \<in> set (ids [Node 1 (Element HTML (utf16 ''p'') [(utf16 ''class'', utf16 ''a'')])
                        [Node 2 (Text (utf16 ''x'')) [], Node 3 (Text []) []]])"
    by simp
  from path_roundtrip[OF a b c] a b c show ?thesis by blast
qed

section \<open>Attribute slots\<close>

lemma filter_setAttr:
  "filter (\<lambda>(b, w). b \<noteq> a) (setAttr a v as) = filter (\<lambda>(b, w). b \<noteq> a) as"
  by (induction as) auto

lemma withAttrs_kind:
  assumes "\<And>ns as. filter (\<lambda>(b, w). b \<noteq> qualifiedName ns a) (g ns as)
                     = filter (\<lambda>(b, w). b \<noteq> qualifiedName ns a) as"
    and "kindOf d' e = map_option (withAttrs g) (kindOf d e)"
  shows "(case kindOf d e of
          Some (Element ns tag as) \<Rightarrow>
            \<exists>as'. kindOf d' e = Some (Element ns tag as')
                 \<and> filter (\<lambda>(b, w). b \<noteq> qualifiedName ns a) as'
                     = filter (\<lambda>(b, w). b \<noteq> qualifiedName ns a) as
        | other \<Rightarrow> kindOf d' e = other)"
proof (cases "kindOf d e")
  case None
  then show ?thesis using assms(2) by simp
next
  case (Some k)
  then show ?thesis using assms by (cases k) auto
qed

text \<open>A call that returns changes the tree by \<open>updKind\<close> at the element, with a function
  on the attribute list that leaves every attribute of another name where it is.\<close>

lemma updateAttrValueSlot_roots:
  assumes "updateAttrValueSlot validName d (Some e) a arg = Inr d'"
  shows "\<exists>g. roots d' = updKind e (withAttrs g) (roots d)
      \<and> (\<forall>ns as. filter (\<lambda>(b, w). b \<noteq> qualifiedName ns a) (g ns as)
                   = filter (\<lambda>(b, w). b \<noteq> qualifiedName ns a) as)"
proof -
  define rm where "rm = (\<lambda>ns. filter (\<lambda>(b :: jstring, w :: jstring). b \<noteq> qualifiedName ns a))"
  have rm: "\<forall>ns as. filter (\<lambda>(b, w). b \<noteq> qualifiedName ns a) (rm ns as)
                   = filter (\<lambda>(b, w). b \<noteq> qualifiedName ns a) as"
    by (simp add: rm_def)
  have other: "roots d' = updKind e (withAttrs rm) (roots d)"
    if "\<And>s. arg \<noteq> AString s"
    using assms that by (cases arg) (auto simp: updateAttrValueSlot_def removeAttribute_def rm_def)
  show ?thesis
  proof (cases arg)
    case (AString s)
    from assms have
      "roots d' = updKind e (withAttrs (\<lambda>ns. setAttr (qualifiedName ns a) s)) (roots d)"
      by (auto simp: updateAttrValueSlot_def AString setAttribute_def split: if_splits)
    moreover have "\<forall>ns as. filter (\<lambda>(b, w). b \<noteq> qualifiedName ns a)
                       (setAttr (qualifiedName ns a) s as)
                   = filter (\<lambda>(b, w). b \<noteq> qualifiedName ns a) as"
      by (simp add: filter_setAttr)
    ultimately show ?thesis by blast
  next
    case (ANode n)
    then show ?thesis using other rm by blast
  next
    case AFalse
    then show ?thesis using other rm by blast
  next
    case ANull
    then show ?thesis using other rm by blast
  next
    case AUndefined
    then show ?thesis using other rm by blast
  qed
qed

text \<open>Whether the call returns: it throws only when the argument is a string and the
  host does not take the name.\<close>

lemma updateAttrValueSlot_returns:
  "(updateAttrValueSlot validName d (Some e) a arg = Inl InvalidCharacterError
      \<and> (\<exists>s. arg = AString s) \<and> \<not> validName a)
   \<or> ((\<exists>d'. updateAttrValueSlot validName d (Some e) a arg = Inr d')
      \<and> ((\<exists>s. arg = AString s) \<longrightarrow> validName a))"
  by (cases arg) (auto simp: updateAttrValueSlot_def setAttribute_def)

text \<open>
  C10. Updating an attribute slot changes at most the named attribute of the slot's
  element. The call throws only when the argument is a string and the host does not take
  the name as an attribute name; that is an \<^verbatim>\<open>InvalidCharacterError\<close>, thrown before anything
  is changed. Every other call returns, and leaves the tree as it was but for the
  attribute of that name (in lower case on an HTML element, as the host reads it) of the
  slot's element: the same nodes in the same order, every node's parent, children and
  siblings, the kind (data, namespace, tag, attributes) of every other node, and the
  element's namespace, its tag and its other attributes, in their order.
\<close>

theorem updateAttrValueSlot_frame:
  "(updateAttrValueSlot validName d (Some e) a arg = Inl InvalidCharacterError
      \<and> (\<exists>s. arg = AString s) \<and> \<not> validName a)
   \<or> (\<exists>d'. updateAttrValueSlot validName d (Some e) a arg = Inr d'
     \<and> ((\<exists>s. arg = AString s) \<longrightarrow> validName a)
     \<and> ids (roots d') = ids (roots d)
     \<and> (\<forall>n. parentNode d' n = parentNode d n)
     \<and> (\<forall>n j. childAt d' n j = childAt d n j)
     \<and> (\<forall>n. precedingSiblings d' n = precedingSiblings d n)
     \<and> (\<forall>n. followingSiblings d' n = followingSiblings d n)
     \<and> (\<forall>n. n \<noteq> e \<longrightarrow> kindOf d' n = kindOf d n)
     \<and> (case kindOf d e of
          Some (Element ns tag as) \<Rightarrow>
            \<exists>as'. kindOf d' e = Some (Element ns tag as')
                 \<and> filter (\<lambda>(b, w). b \<noteq> qualifiedName ns a) as'
                     = filter (\<lambda>(b, w). b \<noteq> qualifiedName ns a) as
        | other \<Rightarrow> kindOf d' e = other))"
proof -
  from updateAttrValueSlot_returns[of validName d e a arg]
  consider (throws) "updateAttrValueSlot validName d (Some e) a arg = Inl InvalidCharacterError"
      "\<exists>s. arg = AString s" "\<not> validName a"
    | (returns) d' where "updateAttrValueSlot validName d (Some e) a arg = Inr d'"
      "(\<exists>s. arg = AString s) \<longrightarrow> validName a"
    by blast
  then show ?thesis
  proof cases
    case throws
    then show ?thesis by blast
  next
    case returns
    from updateAttrValueSlot_roots[OF returns(1)] obtain g where
      r: "roots d' = updKind e (withAttrs g) (roots d)"
      and g: "\<And>ns as. filter (\<lambda>(b, w). b \<noteq> qualifiedName ns a) (g ns as)
                       = filter (\<lambda>(b, w). b \<noteq> qualifiedName ns a) as"
      by blast
    note fr = updKind_frame[OF r]
    note k = withAttrs_kind[of a g d' e d, OF g fr(7)]
    have "\<exists>d'. updateAttrValueSlot validName d (Some e) a arg = Inr d'
     \<and> ((\<exists>s. arg = AString s) \<longrightarrow> validName a)
     \<and> ids (roots d') = ids (roots d)
     \<and> (\<forall>n. parentNode d' n = parentNode d n)
     \<and> (\<forall>n j. childAt d' n j = childAt d n j)
     \<and> (\<forall>n. precedingSiblings d' n = precedingSiblings d n)
     \<and> (\<forall>n. followingSiblings d' n = followingSiblings d n)
     \<and> (\<forall>n. n \<noteq> e \<longrightarrow> kindOf d' n = kindOf d n)
     \<and> (case kindOf d e of
          Some (Element ns tag as) \<Rightarrow>
            \<exists>as'. kindOf d' e = Some (Element ns tag as')
                 \<and> filter (\<lambda>(b, w). b \<noteq> qualifiedName ns a) as'
                     = filter (\<lambda>(b, w). b \<noteq> qualifiedName ns a) as
        | other \<Rightarrow> kindOf d' e = other)"
      using returns fr(1-5) fr(6) k by (intro exI[of _ d']) blast
    then show ?thesis by (rule disjI2)
  qed
qed


text \<open>
  C9. A node applied to an attribute slot is recovered locally: the call returns without
  an error, one warning is written, the attribute (of that name, in lower case on an HTML
  element, as the host reads it) is gone from the element, and the second loop of an
  instantiation goes on with the remaining slots.
\<close>

theorem updateAttrValueSlot_node:
  "\<exists>d'. updateAttrValueSlot validName d (Some e) a (ANode n) = Inr d'
      \<and> console d' = console d @ [(windowName d, ANode n)]
      \<and> (case kindOf d e of
            Some (Element ns tag as) \<Rightarrow>
              kindOf d' e
                = Some (Element ns tag (filter (\<lambda>(b, w). b \<noteq> qualifiedName ns a) as))
          | other \<Rightarrow> kindOf d' e = other)
      \<and> (\<forall>rest args. applyArgs validName d (AttrValueSlot (Some e) a # rest) (ANode n # args)
                        = applyArgs validName d' rest args)"
proof -
  define d' where "d' = removeAttribute (d\<lparr>console := console d @ [(windowName d, ANode n)]\<rparr>) e a"
  have u: "updateAttrValueSlot validName d (Some e) a (ANode n) = Inr d'"
    by (simp add: updateAttrValueSlot_def d'_def)
  have c: "console d' = console d @ [(windowName d, ANode n)]"
    by (simp add: d'_def removeAttribute_def)
  have r: "roots d' = updKind e
      (withAttrs (\<lambda>ns. filter (\<lambda>(b, w). b \<noteq> qualifiedName ns a))) (roots d)"
    by (simp add: d'_def removeAttribute_def)
  have k: "(case kindOf d e of
            Some (Element ns tag as) \<Rightarrow>
              kindOf d' e
                = Some (Element ns tag (filter (\<lambda>(b, w). b \<noteq> qualifiedName ns a) as))
          | other \<Rightarrow> kindOf d' e = other)"
  proof (cases "kindOf d e")
    case None
    then show ?thesis using updKind_frame(7)[OF r] by simp
  next
    case (Some k)
    then show ?thesis using updKind_frame(7)[OF r] by (cases k) auto
  qed
  have "applyArgs validName d (AttrValueSlot (Some e) a # rest) (ANode n # args)
      = applyArgs validName d' rest args"
    for rest args
    by (simp add: u)
  with u c k show ?thesis by blast
qed

section \<open>The two loops of an instantiation\<close>

lemma collectSlots_resolves:
  "collectSlots d frag ts (ss0, ns0, as0) = Inr (ss, ns, as)
     \<Longrightarrow> \<exists>new. ss = ss0 @ new \<and> length new = length ts
              \<and> (\<forall>i<length ts. resolveAnchor d frag (ts ! i) = Inr (new ! i))"
proof (induction ts arbitrary: ss0 ns0 as0)
  case Nil
  then show ?case by simp
next
  case (Cons t ts)
  from Cons.prems obtain a ns1 as1 where
    a: "resolveAnchor d frag t = Inr a"
    and rest: "collectSlots d frag ts (ss0 @ [a], ns1, as1) = Inr (ss, ns, as)"
    by (cases t) (auto simp: resolveAnchor_def Let_def split: sum.splits option.splits)
  from Cons.IH[OF rest] obtain new where
    n: "ss = (ss0 @ [a]) @ new" "length new = length ts"
       "\<forall>i<length ts. resolveAnchor d frag (ts ! i) = Inr (new ! i)"
    by blast
  have "\<forall>i<length (t # ts). resolveAnchor d frag ((t # ts) ! i) = Inr ((a # new) ! i)"
    using a n(3) by (auto simp: nth_Cons split: nat.splits)
  then show ?case using n(1,2) by (intro exI[of _ "a # new"]) simp
qed

lemma argAt_Suc: "argAt args (Suc i) = argAt (tl args) i"
  by (cases args) (auto simp: argAt_def)

lemma argAt_0: "argAt args 0 = (case args of [] \<Rightarrow> AUndefined | arg # _ \<Rightarrow> arg)"
  by (cases args) (auto simp: argAt_def)

lemma applyArgs_trace:
  "applyArgs validName d ss args = Inr d2
     \<Longrightarrow> \<exists>ds. length ds = Suc (length ss) \<and> ds ! 0 = d \<and> ds ! length ss = d2
            \<and> (\<forall>i<length ss. updateSlot validName (ds ! i) (ss ! i) (argAt args i) = Inr (ds ! Suc i))"
proof (induction ss arbitrary: d args)
  case Nil
  then show ?case by (intro exI[of _ "[d]"]) simp
next
  case (Cons s ss)
  from Cons.prems obtain d' where
    u: "updateSlot validName d s (argAt args 0) = Inr d'" and rest: "applyArgs validName d' ss (tl args) = Inr d2"
    by (auto simp: argAt_0 split: sum.splits)
  from Cons.IH[OF rest] obtain ds where
    ds: "length ds = Suc (length ss)" "ds ! 0 = d'" "ds ! length ss = d2"
        "\<forall>i<length ss. updateSlot validName (ds ! i) (ss ! i) (argAt (tl args) i) = Inr (ds ! Suc i)"
    by blast
  have "\<forall>i<length (s # ss).
          updateSlot validName ((d # ds) ! i) ((s # ss) ! i) (argAt args i) = Inr ((d # ds) ! Suc i)"
    using u ds(2,4) by (auto simp: nth_Cons argAt_Suc split: nat.splits)
  then show ?case using ds(1,3) by (intro exI[of _ "d # ds"]) simp
qed

text \<open>
  C3. When an instantiation returns, every anchor is the resolution of its descriptor
  against the clone as \<^verbatim>\<open>importNode\<close> left it, before any update, and the document
  returned is reached from that clone by applying \<^verbatim>\<open>args[i]\<close> to anchor \<open>i\<close> for
  \<open>i = 0, 1, \<dots>\<close> in this order.
\<close>

theorem createTemplateInstance_order:
  assumes "createTemplateInstance validName d t args = Inr (d2, inst)"
  shows "\<exists>d1 ds. importNode d (templateDocument t) (content t) = Inr (d1, fragment inst)
     \<and> length (instanceSlots inst) = length (slots t)
     \<and> (\<forall>i<length (slots t).
           resolveAnchor d1 (fragment inst) (slots t ! i) = Inr (instanceSlots inst ! i))
     \<and> length ds = Suc (length (slots t)) \<and> ds ! 0 = d1 \<and> ds ! length (slots t) = d2
     \<and> (\<forall>i<length (slots t).
           updateSlot validName (ds ! i) (instanceSlots inst ! i) (argAt args i) = Inr (ds ! Suc i))"
proof -
  from assms obtain d1 frag ss ns as where
    i: "importNode d (templateDocument t) (content t) = Inr (d1, frag)"
    and c: "collectSlots d1 frag (slots t) ([], [], []) = Inr (ss, ns, as)"
    and a: "applyArgs validName d1 ss args = Inr d2"
    and inst: "inst = \<lparr>fragment = frag, instanceSlots = ss, nodeSlots = ns, attrValueSlots = as\<rparr>"
    by (auto simp: createTemplateInstance_def split: sum.splits prod.splits)
  from collectSlots_resolves[OF c] have
    l: "length ss = length (slots t)"
    and r: "\<forall>i<length (slots t). resolveAnchor d1 frag (slots t ! i) = Inr (ss ! i)"
    by auto
  from applyArgs_trace[OF a] obtain ds where
    ds: "length ds = Suc (length ss)" "ds ! 0 = d1" "ds ! length ss = d2"
        "\<forall>i<length ss. updateSlot validName (ds ! i) (ss ! i) (argAt args i) = Inr (ds ! Suc i)"
    by blast
  show ?thesis
    using i l r ds by (intro exI[of _ d1] exI[of _ ds]) (simp add: inst)
qed

section \<open>Evaluation, and the first end-to-end scenario\<close>

lemmas dom_defs = findNode_def parentOf_def kindOf_def parentNode_def precedingSiblings_def
  followingSiblings_def previousSibling_def nextSibling_def childAt_def childNodes_def
  setData_def setAttribute_def removeAttribute_def splitText_def createTextNode_def
  removeNode_def before_def importNode_def createNodeIterator_def nextNode_def
  dataOf_def isText_def

lemma findNode_append:
  "findNode n (f @ g) = (case findNode n f of None \<Rightarrow> findNode n g | Some x \<Rightarrow> Some x)"
  by (simp add: findNode_def preorder_append find_append split: option.splits)

lemma parentOf_append:
  "parentOf n (f @ g) = (case parentOf n f of None \<Rightarrow> parentOf n g | Some x \<Rightarrow> Some x)"
  by (simp add: parentOf_def preorder_append find_append split: option.splits)

lemma findNode_None: "n \<notin> set (ids f) \<Longrightarrow> findNode n f = None"
  by (auto simp: findNode_def ids_def find_None_iff)

lemma updKind_append: "updKind n g (f @ h) = updKind n g f @ updKind n g h"
  by (induction f rule: preorder.induct) auto

lemma updKind_fresh: "n \<notin> set (ids f) \<Longrightarrow> updKind n g f = f"
  by (induction f rule: preorder.induct) auto

lemma wf_fresh: "wfDoc d \<Longrightarrow> nextId d \<le> n \<Longrightarrow> n \<notin> set (ids (roots d))"
  by (auto simp: wfDoc_def)

lemma scenario1_compiles:
  assumes "parseHTML (utf16 ''<p>'' @ replacement @ utf16 ''</p>'')
             = [HElement HTML (utf16 ''p'') [] [HText replacement]]"
  shows "createTemplate parseHTML [utf16 ''<p>'', utf16 ''</p>''] = Some (Inr scenario1Template)"
  using assms
  by (simp add: createTemplate_def walkTemplate_def parseTemplate_def dom_defs utf16_def replacement_def
      walk.simps splitMarkers.simps pathToNode_def pathToNodeLoop.simps Let_def scenario1Template_def)

lemma scenario1_instance:
  assumes "wfDoc d"
  shows "createTemplateInstance validName d scenario1Template [AString (utf16 ''hello'')]
         = Inr (scenario1Result d,
                \<lparr>fragment = nextId d,
                 instanceSlots = [NodeSlot None (Some (nextId d + 3))],
                 nodeSlots = [NodeSlot None (Some (nextId d + 3))],
                 attrValueSlots = []\<rparr>)"
proof -
  have f: "\<And>n. nextId d \<le> n \<Longrightarrow> findNode n (roots d) = None"
    using wf_fresh[OF assms] by (auto intro!: findNode_None)
  have p: "\<And>n. nextId d \<le> n \<Longrightarrow> parentOf n (roots d) = None"
    using wf_fresh[OF assms] by (auto intro!: parentOf_None)
  have u: "\<And>n g. nextId d \<le> n \<Longrightarrow> updKind n g (roots d) = roots d"
    using wf_fresh[OF assms] by (auto intro!: updKind_fresh)
  show ?thesis
    by (simp add: createTemplateInstance_def scenario1Template_def scenario1Result_def
        importNode_def childAt_def previousSibling_def nextSibling_def precedingSiblings_def
        followingSiblings_def updateNodeSlot_def collectChildNodes_def isText_def kindOf_def
        setData_def findNode_append parentOf_append updKind_append f p u
        utf16_def replacement_def Let_def)
qed


lemma scenario1_tree:
  assumes "wfDoc d"
  shows "childNodes (scenario1Result d) (nextId d) = [nextId d + 1]"
    and "kindOf (scenario1Result d) (nextId d + 1) = Some (Element HTML (utf16 ''p'') [])"
    and "childNodes (scenario1Result d) (nextId d + 1) = [nextId d + 2, nextId d + 3]"
    and "kindOf (scenario1Result d) (nextId d + 2) = Some (Text (utf16 ''hello''))"
    and "kindOf (scenario1Result d) (nextId d + 3) = Some (Text [])"
proof -
  have f: "\<And>n. nextId d \<le> n \<Longrightarrow> findNode n (roots d) = None"
    using wf_fresh[OF assms] by (auto intro!: findNode_None)
  show "childNodes (scenario1Result d) (nextId d) = [nextId d + 1]"
    and "kindOf (scenario1Result d) (nextId d + 1) = Some (Element HTML (utf16 ''p'') [])"
    and "childNodes (scenario1Result d) (nextId d + 1) = [nextId d + 2, nextId d + 3]"
    and "kindOf (scenario1Result d) (nextId d + 2) = Some (Text (utf16 ''hello''))"
    and "kindOf (scenario1Result d) (nextId d + 3) = Some (Text [])"
    by (simp_all add: scenario1Result_def childNodes_def kindOf_def findNode_append f)
qed

lemma wf_emptyDocument: "wfDoc emptyDocument"
  by (simp add: wfDoc_def emptyDocument_def)

lemma paragraphParser_parses:
  "paragraphParser (utf16 ''<p>'' @ replacement @ utf16 ''</p>'')
     = [HElement HTML (utf16 ''p'') [] [HText replacement]]"
  by (simp add: paragraphParser_def)

text \<open>
  C1, as stated, fails: in the instance of the first scenario the paragraph has two
  children, the text node and the empty text node that the compiler split off after the
  marker.
\<close>

theorem scenario1_two_children_counterexample:
  "createTemplate paragraphParser [utf16 ''<p>'', utf16 ''</p>''] = Some (Inr scenario1Template)
   \<and> createTemplateInstance validAttributeLocalName emptyDocument scenario1Template [AString (utf16 ''hello'')]
       = Inr (scenario1Result emptyDocument,
              \<lparr>fragment = 0, instanceSlots = [NodeSlot None (Some 3)],
               nodeSlots = [NodeSlot None (Some 3)], attrValueSlots = []\<rparr>)
   \<and> childNodes (scenario1Result emptyDocument) 0 = [1]
   \<and> kindOf (scenario1Result emptyDocument) 1 = Some (Element HTML (utf16 ''p'') [])
   \<and> childNodes (scenario1Result emptyDocument) 1 = [2, 3]
   \<and> kindOf (scenario1Result emptyDocument) 3 = Some (Text [])"
  using scenario1_compiles[of paragraphParser, OF paragraphParser_parses]
    scenario1_instance[OF wf_emptyDocument] scenario1_tree[OF wf_emptyDocument]
  by (simp add: emptyDocument_def)

text \<open>
  C1, amended. For a parser that reads the markup of the first scenario as a paragraph
  holding the marker, and any well-formed document: the template compiles, the
  instantiation with \<^verbatim>\<open>"hello"\<close> returns, the instance root has one child, the paragraph,
  and the paragraph has exactly two children: a text node with data \<^verbatim>\<open>"hello"\<close> followed by
  an empty text node, which is the slot's after-boundary.
\<close>

theorem scenario1_paragraph:
  assumes "parseHTML (utf16 ''<p>'' @ replacement @ utf16 ''</p>'')
             = [HElement HTML (utf16 ''p'') [] [HText replacement]]"
    and "wfDoc d"
  shows "\<exists>t d' inst p t1 t2.
           createTemplate parseHTML [utf16 ''<p>'', utf16 ''</p>''] = Some (Inr t)
         \<and> createTemplateInstance validName d t [AString (utf16 ''hello'')] = Inr (d', inst)
         \<and> childNodes d' (fragment inst) = [p]
         \<and> kindOf d' p = Some (Element HTML (utf16 ''p'') [])
         \<and> childNodes d' p = [t1, t2]
         \<and> kindOf d' t1 = Some (Text (utf16 ''hello''))
         \<and> kindOf d' t2 = Some (Text [])
         \<and> instanceSlots inst = [NodeSlot None (Some t2)]"
  using scenario1_compiles[of parseHTML, OF assms(1)] scenario1_instance[OF assms(2)] scenario1_tree[OF assms(2)]
  by (intro exI[of _ scenario1Template] exI[of _ "scenario1Result d"] exI conjI) auto

theorem scenario1_paragraph_witness:
  "paragraphParser (utf16 ''<p>'' @ replacement @ utf16 ''</p>'')
     = [HElement HTML (utf16 ''p'') [] [HText replacement]]
   \<and> wfDoc emptyDocument
   \<and> (\<exists>t d' inst p t1 t2.
           createTemplate paragraphParser [utf16 ''<p>'', utf16 ''</p>''] = Some (Inr t)
         \<and> createTemplateInstance validAttributeLocalName emptyDocument t [AString (utf16 ''hello'')] = Inr (d', inst)
         \<and> childNodes d' (fragment inst) = [p]
         \<and> kindOf d' p = Some (Element HTML (utf16 ''p'') [])
         \<and> childNodes d' p = [t1, t2]
         \<and> kindOf d' t1 = Some (Text (utf16 ''hello''))
         \<and> kindOf d' t2 = Some (Text [])
         \<and> instanceSlots inst = [NodeSlot None (Some t2)])"
  using scenario1_paragraph[of paragraphParser emptyDocument, OF paragraphParser_parses wf_emptyDocument]
    paragraphParser_parses wf_emptyDocument by blast

section \<open>Instances of the theorems above\<close>

lemma exampleDoc_kinds:
  "kindOf exampleDoc 1 = Some (Element HTML (utf16 ''p'') [(utf16 ''class'', utf16 ''a'')])"
  "kindOf exampleDoc 2 = Some (Text (utf16 ''x''))"
  by (simp_all add: exampleDoc_def kindOf_def)

lemma exampleDoc_names:
  "validAttributeLocalName (utf16 ''class'')"
  "\<not> validAttributeLocalName (utf16 ''=x'')"
  by (simp_all add: validAttributeLocalName_def utf16_def)

theorem updateAttrValueSlot_frame_witness:
  "(\<exists>d'. updateAttrValueSlot validAttributeLocalName exampleDoc (Some 1) (utf16 ''class'')
            (AString (utf16 ''b'')) = Inr d'
      \<and> ids (roots d') = ids (roots exampleDoc)
      \<and> parentNode d' 2 = parentNode exampleDoc 2
      \<and> kindOf d' 2 = Some (Text (utf16 ''x'')))
   \<and> updateAttrValueSlot validAttributeLocalName exampleDoc (Some 1) (utf16 ''=x'')
        (AString (utf16 ''b'')) = Inl InvalidCharacterError"
proof
  from updateAttrValueSlot_frame[of validAttributeLocalName exampleDoc 1 "utf16 ''class''"
      "AString (utf16 ''b'')"] exampleDoc_names(1)
  obtain d' where a: "updateAttrValueSlot validAttributeLocalName exampleDoc (Some 1)
        (utf16 ''class'') (AString (utf16 ''b'')) = Inr d'"
    and b: "ids (roots d') = ids (roots exampleDoc)"
    and c: "\<forall>n. parentNode d' n = parentNode exampleDoc n"
    and e: "\<forall>n. n \<noteq> 1 \<longrightarrow> kindOf d' n = kindOf exampleDoc n"
    by blast
  have "kindOf d' 2 = Some (Text (utf16 ''x''))" using e exampleDoc_kinds(2) by simp
  with a b c show "\<exists>d'. updateAttrValueSlot validAttributeLocalName exampleDoc (Some 1)
            (utf16 ''class'') (AString (utf16 ''b'')) = Inr d'
      \<and> ids (roots d') = ids (roots exampleDoc)
      \<and> parentNode d' 2 = parentNode exampleDoc 2
      \<and> kindOf d' 2 = Some (Text (utf16 ''x''))" by blast
next
  from updateAttrValueSlot_frame[of validAttributeLocalName exampleDoc 1 "utf16 ''=x''"
      "AString (utf16 ''b'')"] exampleDoc_names(2)
  show "updateAttrValueSlot validAttributeLocalName exampleDoc (Some 1) (utf16 ''=x'')
        (AString (utf16 ''b'')) = Inl InvalidCharacterError"
    by blast
qed

theorem updateAttrValueSlot_node_witness:
  "\<exists>d'. updateAttrValueSlot validAttributeLocalName exampleDoc (Some 1) (utf16 ''class'')
           (ANode 2) = Inr d'
      \<and> console d' = console exampleDoc @ [(windowName exampleDoc, ANode 2)]
      \<and> kindOf d' 1 = Some (Element HTML (utf16 ''p'') [])"
proof -
  have lc: "toLowerCaseASCII (utf16 ''class'') = utf16 ''class''"
    by (simp add: toLowerCaseASCII_def utf16_def)
  from updateAttrValueSlot_node[of validAttributeLocalName exampleDoc 1 "utf16 ''class''" 2]
  obtain d' where a: "updateAttrValueSlot validAttributeLocalName exampleDoc (Some 1)
        (utf16 ''class'') (ANode 2) = Inr d'"
    and b: "console d' = console exampleDoc @ [(windowName exampleDoc, ANode 2)]"
    and c: "(case kindOf exampleDoc 1 of
            Some (Element ns tag as) \<Rightarrow>
              kindOf d' 1
                = Some (Element ns tag
                    (filter (\<lambda>(b, w). b \<noteq> qualifiedName ns (utf16 ''class'')) as))
          | other \<Rightarrow> kindOf d' 1 = other)"
    by blast
  have "kindOf d' 1 = Some (Element HTML (utf16 ''p'') [])"
    using c[unfolded exampleDoc_kinds(1)] by (simp add: lc)
  with a b show ?thesis by blast
qed

theorem createTemplateInstance_order_witness:
  "createTemplateInstance validAttributeLocalName emptyDocument scenario1Template [AString (utf16 ''hello'')]
     = Inr (scenario1Result emptyDocument,
            \<lparr>fragment = nextId emptyDocument,
             instanceSlots = [NodeSlot None (Some (nextId emptyDocument + 3))],
             nodeSlots = [NodeSlot None (Some (nextId emptyDocument + 3))],
             attrValueSlots = []\<rparr>)
   \<and> (\<exists>d1 ds. importNode emptyDocument (templateDocument scenario1Template)
                 (content scenario1Template) = Inr (d1, nextId emptyDocument)
        \<and> resolveAnchor d1 (nextId emptyDocument) (slots scenario1Template ! 0)
            = Inr (NodeSlot None (Some (nextId emptyDocument + 3)))
        \<and> ds ! 0 = d1 \<and> ds ! 1 = scenario1Result emptyDocument
        \<and> updateSlot validAttributeLocalName (ds ! 0) (NodeSlot None (Some (nextId emptyDocument + 3)))
              (argAt [AString (utf16 ''hello'')] 0) = Inr (ds ! 1))"
proof -
  note i = scenario1_instance[OF wf_emptyDocument, where validName = validAttributeLocalName]
  from createTemplateInstance_order[OF i] obtain d1 ds where
    a: "importNode emptyDocument (templateDocument scenario1Template)
          (content scenario1Template) = Inr (d1, nextId emptyDocument)"
    and b: "\<forall>i<length (slots scenario1Template).
           resolveAnchor d1 (nextId emptyDocument) (slots scenario1Template ! i)
             = Inr ([NodeSlot None (Some (nextId emptyDocument + 3))] ! i)"
    and c: "ds ! 0 = d1" "ds ! length (slots scenario1Template) = scenario1Result emptyDocument"
    and e: "\<forall>i<length (slots scenario1Template).
           updateSlot validAttributeLocalName (ds ! i) ([NodeSlot None (Some (nextId emptyDocument + 3))] ! i)
             (argAt [AString (utf16 ''hello'')] i) = Inr (ds ! Suc i)"
    by auto
  have l: "length (slots scenario1Template) = 1" by (simp add: scenario1Template_def)
  from b l have b': "resolveAnchor d1 (nextId emptyDocument) (slots scenario1Template ! 0)
            = Inr (NodeSlot None (Some (nextId emptyDocument + 3)))" by simp
  from e l have e': "updateSlot validAttributeLocalName (ds ! 0) (NodeSlot None (Some (nextId emptyDocument + 3)))
              (argAt [AString (utf16 ''hello'')] 0) = Inr (ds ! 1)" by simp
  from c l have c': "ds ! 1 = scenario1Result emptyDocument" by simp
  show ?thesis using i a b' c(1) c' e' by blast
qed

section \<open>What the tree operations do to siblings\<close>

lemma entries_simps [simp]:
  "entries [] = []"
  "entries (Node i k cs # xs) = (i, k) # entries cs @ entries xs"
  "entries (xs @ ys) = entries xs @ entries ys"
  by (simp_all add: entries_def preorder_append)

lemma ids_entries: "ids f = map fst (entries f)"
  by (simp add: ids_def entries_def comp_def)

lemma kindOf_entries: "kindOf d n = map_of (entries (roots d)) n"
proof -
  have "map_option nkind (find (\<lambda>x. nid x = n) xs) = map_of (map (\<lambda>x. (nid x, nkind x)) xs) n"
    for xs :: "node list"
    by (induction xs) auto
  then show ?thesis by (simp add: kindOf_def findNode_def entries_def)
qed

lemma map_of_mset:
  assumes "distinct (map fst xs)" "mset xs = mset ys"
  shows "map_of xs = map_of ys"
proof -
  have "mset (map fst ys) = mset (map fst xs)" using assms(2) by (metis mset_map)
  then have "distinct (map fst ys)" using assms(1) by (metis mset_eq_imp_distinct_iff)
  moreover have "set xs = set ys" using assms(2) by (rule mset_eq_setD)
  ultimately show ?thesis using assms(1) by (simp add: map_of_inject_set)
qed

lemma prune_fresh: "x \<notin> set (ids f) \<Longrightarrow> prune x f = f"
  by (induction f rule: preorder.induct) auto

lemma insBefore_fresh: "r \<notin> set (ids f) \<Longrightarrow> insBefore r ns f = f"
  by (induction f rule: preorder.induct) auto

lemma dropKids_fresh: "n \<notin> set (ids f) \<Longrightarrow> dropKids n f = f"
  by (induction f rule: preorder.induct) auto

lemma findNode_ids: "findNode x f = Some y \<Longrightarrow> x \<in> set (ids f)"
  by (auto simp: findNode_def ids_def find_Some_iff)

lemma findNode_Some_iff_ids: "x \<in> set (ids f) \<Longrightarrow> \<exists>y. findNode x f = Some y"
  by (cases "findNode x f") (auto simp: findNode_def ids_def find_None_iff)

lemma prune_entries:
  "distinct (ids f) \<Longrightarrow> findNode x f = Some xn
     \<Longrightarrow> mset (entries (prune x f)) + mset (entries [xn]) = mset (entries f)"
proof (induction f rule: preorder.induct)
  case 1
  then show ?case by simp
next
  case (2 i k cs xs)
  from "2.prems"(1) have dc: "distinct (ids cs)" and dx: "distinct (ids xs)"
    and i1: "i \<notin> set (ids cs)" and i2: "i \<notin> set (ids xs)"
    and dj: "set (ids cs) \<inter> set (ids xs) = {}" by auto
  show ?case
  proof (cases "i = x")
    case True
    then have "xn = Node i k cs" using "2.prems"(2) by simp
    moreover have "prune x xs = xs" using i2 True by (auto intro: prune_fresh)
    ultimately show ?thesis using True by simp
  next
    case False
    show ?thesis
    proof (cases "findNode x cs")
      case None
      then have fx: "findNode x xs = Some xn" using "2.prems"(2) False by simp
      have "x \<notin> set (ids cs)" using findNode_ids[OF fx] dj by auto
      then have "prune x cs = cs" by (rule prune_fresh)
      then show ?thesis using "2.IH"(2)[OF dx fx] False by simp
    next
      case (Some y)
      then have fx: "findNode x cs = Some xn" using "2.prems"(2) False by simp
      have "x \<notin> set (ids xs)" using findNode_ids[OF fx] dj by auto
      then have "prune x xs = xs" by (rule prune_fresh)
      then show ?thesis using "2.IH"(1)[OF dc fx] False by simp
    qed
  qed
qed

lemma insBefore_entries:
  "distinct (ids f) \<Longrightarrow> r \<in> set (ids f)
     \<Longrightarrow> mset (entries (insBefore r ns f)) = mset (entries f) + mset (entries ns)"
proof (induction f rule: preorder.induct)
  case 1
  then show ?case by simp
next
  case (2 i k cs xs)
  from "2.prems"(1) have dc: "distinct (ids cs)" and dx: "distinct (ids xs)"
    and i1: "i \<notin> set (ids cs)" and i2: "i \<notin> set (ids xs)"
    and dj: "set (ids cs) \<inter> set (ids xs) = {}" by auto
  consider "i = r" | "i \<noteq> r" "r \<in> set (ids cs)" | "i \<noteq> r" "r \<in> set (ids xs)"
    using "2.prems"(2) by auto
  then show ?case
  proof cases
    case 1
    then have "insBefore r ns cs = cs" "insBefore r ns xs = xs"
      using i1 i2 by (auto intro: insBefore_fresh)
    then show ?thesis using 1 by simp
  next
    case 2
    then have "r \<notin> set (ids xs)" using dj by auto
    then have "insBefore r ns xs = xs" by (rule insBefore_fresh)
    then show ?thesis using "2.IH"(1)[OF dc 2(2)] 2(1) by simp
  next
    case 3
    then have "r \<notin> set (ids cs)" using dj by auto
    then have "insBefore r ns cs = cs" by (rule insBefore_fresh)
    then show ?thesis using "2.IH"(2)[OF dx 3(2)] 3(1) by simp
  qed
qed

lemma dropKids_entries:
  "distinct (ids f) \<Longrightarrow> findNode n f = Some x
     \<Longrightarrow> mset (entries (dropKids n f)) + mset (entries (kids x)) = mset (entries f)"
proof (induction f rule: preorder.induct)
  case 1
  then show ?case by simp
next
  case (2 i k cs xs)
  from "2.prems"(1) have dc: "distinct (ids cs)" and dx: "distinct (ids xs)"
    and i1: "i \<notin> set (ids cs)" and i2: "i \<notin> set (ids xs)"
    and dj: "set (ids cs) \<inter> set (ids xs) = {}" by auto
  show ?case
  proof (cases "i = n")
    case True
    then have "x = Node i k cs" using "2.prems"(2) by simp
    moreover have "dropKids n xs = xs" using i2 True by (auto intro: dropKids_fresh)
    ultimately show ?thesis using True by simp
  next
    case False
    show ?thesis
    proof (cases "findNode n cs")
      case None
      then have fx: "findNode n xs = Some x" using "2.prems"(2) False by simp
      have "n \<notin> set (ids cs)" using findNode_ids[OF fx] dj by auto
      then have "dropKids n cs = cs" by (rule dropKids_fresh)
      then show ?thesis using "2.IH"(2)[OF dx fx] False by simp
    next
      case (Some y)
      then have fx: "findNode n cs = Some x" using "2.prems"(2) False by simp
      have "n \<notin> set (ids xs)" using findNode_ids[OF fx] dj by auto
      then have "dropKids n xs = xs" by (rule dropKids_fresh)
      then show ?thesis using "2.IH"(1)[OF dc fx] False by simp
    qed
  qed
qed

lemma map_nid_prune: "map nid (prune x f) = filter (\<lambda>i. i \<noteq> x) (map nid f)"
  by (induction f rule: preorder.induct) auto

lemma map_nid_insBefore: "map nid (insBefore r ns f) = insertBefore r (map nid ns) (map nid f)"
  by (induction f rule: preorder.induct) (auto simp: insertBefore_def)

lemma map_nid_dropKids: "map nid (dropKids n f) = map nid f"
  by (induction f rule: preorder.induct) auto

lemma parentOf_single_None:
  "parentOf e [Node i k cs] = None \<longleftrightarrow> e \<notin> nid ` set cs \<and> parentOf e cs = None"
  by (auto split: option.splits)

lemma parentOf_prune:
  "e \<noteq> x \<Longrightarrow> (\<forall>y\<in>set (preorder f). nid y = x \<longrightarrow> parentOf e [y] = None)
     \<Longrightarrow> parentOf e (prune x f) = map_option (pruneNode x) (parentOf e f)"
proof (induction f rule: preorder.induct)
  case 1
  then show ?case by simp
next
  case (2 i k cs xs)
  have hc: "\<forall>y\<in>set (preorder cs). nid y = x \<longrightarrow> parentOf e [y] = None"
    and hx: "\<forall>y\<in>set (preorder xs). nid y = x \<longrightarrow> parentOf e [y] = None"
    using "2.prems"(2) by auto
  note ihc = "2.IH"(1)[OF "2.prems"(1) hc] and ihx = "2.IH"(2)[OF "2.prems"(1) hx]
  show ?case
  proof (cases "i = x")
    case True
    then have "parentOf e [Node i k cs] = None" using "2.prems"(2) by simp
    then have "e \<notin> nid ` set cs" "parentOf e cs = None"
      using parentOf_single_None[of e i k cs] by blast+
    then show ?thesis using True ihx by simp
  next
    case False
    have m: "e \<in> nid ` set (prune x cs) \<longleftrightarrow> e \<in> nid ` set cs"
      using "2.prems"(1) by (simp add: map_nid_prune flip: set_map)
    show ?thesis
      using False ihc ihx m by (auto simp: pruneNode_def split: option.splits)
  qed
qed

lemma insertBefore_mem: "e \<notin> set ms \<Longrightarrow> e \<in> set (insertBefore r ms K) \<longleftrightarrow> e \<in> set K"
  by (induction K) (auto simp: insertBefore_def)

lemma parentOf_insBefore:
  "e \<notin> nid ` set ns \<Longrightarrow> parentOf e ns = None
     \<Longrightarrow> parentOf e (insBefore r ns f) = map_option (insNode r ns) (parentOf e f)"
proof (induction f rule: preorder.induct)
  case 1
  then show ?case by simp
next
  case (2 i k cs xs)
  note ihc = "2.IH"(1)[OF "2.prems"] and ihx = "2.IH"(2)[OF "2.prems"]
  have m: "e \<in> nid ` set (insBefore r ns cs) \<longleftrightarrow> e \<in> nid ` set cs"
    using "2.prems"(1) insertBefore_mem[of e "map nid ns" r "map nid cs"]
    by (simp add: map_nid_insBefore flip: set_map)
  have "parentOf e (insBefore r ns (Node i k cs # xs))
        = parentOf e (Node i k (insBefore r ns cs) # insBefore r ns xs)"
    using "2.prems"(2) parentOf_append[of e ns "Node i k (insBefore r ns cs) # insBefore r ns xs"]
    by (auto simp del: parentOf_simps(2))
  then show ?case
    using ihc ihx m by (auto simp: insNode_def split: option.splits)
qed

lemma parentOf_dropKids:
  "(\<forall>y\<in>set (preorder f). nid y = n \<longrightarrow> parentOf e [y] = None)
     \<Longrightarrow> parentOf e (dropKids n f) = map_option (dropNode n) (parentOf e f)"
proof (induction f rule: preorder.induct)
  case 1
  then show ?case by simp
next
  case (2 i k cs xs)
  have hc: "\<forall>y\<in>set (preorder cs). nid y = n \<longrightarrow> parentOf e [y] = None"
    and hx: "\<forall>y\<in>set (preorder xs). nid y = n \<longrightarrow> parentOf e [y] = None"
    using "2.prems" by auto
  note ihc = "2.IH"(1)[OF hc] and ihx = "2.IH"(2)[OF hx]
  show ?case
  proof (cases "i = n")
    case True
    then have "parentOf e [Node i k cs] = None" using "2.prems" by simp
    then have "e \<notin> nid ` set cs" "parentOf e cs = None"
      using parentOf_single_None[of e i k cs] by blast+
    then show ?thesis using True ihx by simp
  next
    case False
    have m: "e \<in> nid ` set (dropKids n cs) \<longleftrightarrow> e \<in> nid ` set cs"
      by (simp add: map_nid_dropKids flip: set_map)
    show ?thesis
      using False ihc ihx m by (auto simp: dropNode_def split: option.splits)
  qed
qed

text \<open>In a forest without repeated identities a node has one parent, so a subtree that
  does not hold the parent of \<open>e\<close> holds no node with the child \<open>e\<close>.\<close>

lemma parentOf_in: "parentOf e f = Some p \<Longrightarrow> p \<in> set (preorder f) \<and> e \<in> nid ` set (kids p)"
  by (auto simp: parentOf_def find_Some_iff)

lemma preorder_sub: "y \<in> set (preorder f) \<Longrightarrow> set (preorder [y]) \<subseteq> set (preorder f)"
proof -
  assume a: "y \<in> set (preorder f)"
  obtain i k cs where y: "y = Node i k cs" by (cases y)
  have "set (preorder cs) \<subseteq> set (preorder f)" using kids_preorder[OF a] y by simp
  then show ?thesis using a y by simp
qed

lemma no_parent_in_subtree:
  assumes "distinct (ids f)" "parentOf e f = Some p" "y \<in> set (preorder f)"
    "nid p \<notin> set (ids [y])"
  shows "parentOf e [y] = None"
proof (cases "parentOf e [y]")
  case None
  then show ?thesis .
next
  case (Some q)
  then have q: "q \<in> set (preorder [y])" "e \<in> nid ` set (kids q)" by (auto dest: parentOf_in)
  then have qf: "q \<in> set (preorder f)" using preorder_sub[OF assms(3)] by auto
  from q(2) obtain c where "c \<in> set (kids q)" "nid c = e" by auto
  then have "parentOf e f = Some q" using parentOf_distinct[OF assms(1) qf] by auto
  then have "q = p" using assms(2) by simp
  then have "nid p \<in> set (ids [y])" using q(1) by (auto simp: ids_def)
  then show ?thesis using assms(4) by simp
qed

lemma findNode_unique:
  "distinct (ids f) \<Longrightarrow> findNode x f = Some xn \<Longrightarrow> y \<in> set (preorder f) \<Longrightarrow> nid y = x \<Longrightarrow> y = xn"
  using findNode_distinct by fastforce

lemma parent_not_under_child:
  assumes "distinct (ids f)" "p \<in> set (preorder f)" "y \<in> set (kids p)"
  shows "nid p \<notin> set (ids [y])"
proof -
  have "set (preorder [y]) \<subseteq> set (preorder (kids p))"
    using assms(3) by (intro preorder_sub toplevel_preorder)
  then have "set (ids [y]) \<subseteq> set (ids (kids p))" by (auto simp: ids_def)
  then show ?thesis using self_not_under[OF assms(1,2)] by auto
qed

lemma wfDoc_entries:
  assumes "wfDoc d" "mset (entries (roots d')) = mset (entries (roots d))" "nextId d \<le> nextId d'"
  shows "wfDoc d'"
proof -
  have m: "mset (ids (roots d')) = mset (ids (roots d))"
    using assms(2) by (metis ids_entries mset_map)
  then have "distinct (ids (roots d'))" using assms(1) by (metis mset_eq_imp_distinct_iff wfDoc_def)
  moreover have "set (ids (roots d')) = set (ids (roots d))" using m by (rule mset_eq_setD)
  ultimately show ?thesis using assms(1,3) by (fastforce simp: wfDoc_def)
qed

lemma kindOf_entries_eq:
  assumes "wfDoc d" "mset (entries (roots d')) = mset (entries (roots d))"
  shows "kindOf d' n = kindOf d n"
proof -
  have "distinct (map fst (entries (roots d)))" using assms(1) by (simp add: wfDoc_def ids_entries)
  then have "map_of (entries (roots d)) = map_of (entries (roots d'))"
    using assms(2) by (intro map_of_mset) simp_all
  then show ?thesis by (simp add: kindOf_entries)
qed

lemma siblingIds_parent:
  "parentOf e (roots d) = Some p \<Longrightarrow> siblingIds d e = map nid (kids p)"
  by (simp add: siblingIds_def)

lemma sibling_findNode:
  assumes "distinct (ids f)" "parentOf e f = Some p" "x \<in> nid ` set (kids p)"
  shows "\<exists>xn. xn \<in> set (kids p) \<and> nid xn = x \<and> findNode x f = Some xn \<and> parentOf x f = Some p"
proof -
  from assms(3) obtain xn where xn: "xn \<in> set (kids p)" "nid xn = x" by auto
  have pin: "p \<in> set (preorder f)" using assms(2) by (simp add: parentOf_in)
  have "findNode x f = Some xn"
    using findNode_distinct[OF assms(1) child_preorder[OF pin xn(1)]] xn(2) by simp
  moreover have "parentOf x f = Some p" using parentOf_distinct[OF assms(1) pin xn(1)] xn(2) by simp
  ultimately show ?thesis using xn by blast
qed

text \<open>Removing a sibling of \<open>e\<close>.\<close>

lemma removeNode_sibling:
  assumes "wfDoc d" "parentOf e (roots d) = Some p" "x \<in> set (siblingIds d e)" "x \<noteq> e"
  shows "wfDoc (removeNode d x)"
    and "\<exists>p'. parentOf e (roots (removeNode d x)) = Some p' \<and> nid p' = nid p"
    and "siblingIds (removeNode d x) e = filter (\<lambda>i. i \<noteq> x) (siblingIds d e)"
    and "kindOf (removeNode d x) n = kindOf d n"
proof -
  have dist: "distinct (ids (roots d))" using assms(1) by (simp add: wfDoc_def)
  have "x \<in> nid ` set (kids p)" using assms(2,3) by (simp add: siblingIds_parent)
  from sibling_findNode[OF dist assms(2) this] obtain xn where
    xn: "xn \<in> set (kids p)" "nid xn = x" "findNode x (roots d) = Some xn"
        "parentOf x (roots d) = Some p" by blast
  have r: "roots (removeNode d x) = prune x (roots d) @ [xn]"
    by (simp add: removeNode_def xn)
  have n: "nextId (removeNode d x) = nextId d" by (simp add: removeNode_def xn)
  have m: "mset (entries (roots (removeNode d x))) = mset (entries (roots d))"
    using prune_entries[OF dist xn(3)] by (simp add: r)
  show "wfDoc (removeNode d x)" using wfDoc_entries[OF assms(1) m] n by simp
  show "kindOf (removeNode d x) n = kindOf d n" using kindOf_entries_eq[OF assms(1) m] .
  have pin: "p \<in> set (preorder (roots d))" using assms(2) by (simp add: parentOf_in)
  have np: "nid p \<notin> set (ids [xn])" using parent_not_under_child[OF dist pin xn(1)] .
  have h: "\<forall>y\<in>set (preorder (roots d)). nid y = x \<longrightarrow> parentOf e [y] = None"
  proof (intro ballI impI)
    fix y assume y: "y \<in> set (preorder (roots d))" "nid y = x"
    then have "y = xn" using findNode_unique[OF dist xn(3)] by blast
    then show "parentOf e [y] = None"
      using no_parent_in_subtree[OF dist assms(2) y(1)] np by simp
  qed
  have pp: "parentOf e (prune x (roots d)) = Some (pruneNode x p)"
    using parentOf_prune[OF assms(4)[symmetric] h] assms(2) by simp
  then have pe: "parentOf e (roots (removeNode d x)) = Some (pruneNode x p)"
    by (simp add: r parentOf_append)
  then show "\<exists>p'. parentOf e (roots (removeNode d x)) = Some p' \<and> nid p' = nid p"
    by (simp add: pruneNode_def)
  show "siblingIds (removeNode d x) e = filter (\<lambda>i. i \<noteq> x) (siblingIds d e)"
    using pe assms(2) by (simp add: siblingIds_def pruneNode_def map_nid_prune)
qed

text \<open>Creating a text node.\<close>

lemma createTextNode_laws:
  assumes "wfDoc d" "createTextNode d s = (d1, c)"
  shows "wfDoc d1" and "c = nextId d" and "parentOf c (roots d1) = None"
    and "findNode c (roots d1) = Some (Node c (Text s) [])"
    and "parentOf e (roots d) = Some p \<Longrightarrow> parentOf e (roots d1) = Some p"
    and "kindOf d1 n = (if n = c then Some (Text s) else kindOf d n)"
    and "siblingIds d1 e = siblingIds d e"
proof -
  from assms(2) have c: "c = nextId d"
    and r: "roots d1 = roots d @ [Node c (Text s) []]" and n: "nextId d1 = Suc (nextId d)"
    by (auto simp: createTextNode_def)
  have fresh: "c \<notin> set (ids (roots d))" using assms(1) c by (auto simp: wfDoc_def)
  show "c = nextId d" by (rule c)
  show "wfDoc d1" using assms(1) fresh by (auto simp: wfDoc_def r n c)
  show "parentOf c (roots d1) = None"
    using parentOf_None[OF fresh] by (simp add: r parentOf_append)
  show "findNode c (roots d1) = Some (Node c (Text s) [])"
    using findNode_None[OF fresh] by (simp add: r findNode_append)
  show "parentOf e (roots d) = Some p \<Longrightarrow> parentOf e (roots d1) = Some p"
    by (simp add: r parentOf_append)
  show "kindOf d1 n = (if n = c then Some (Text s) else kindOf d n)"
    using fresh findNode_None[OF fresh]
    by (auto simp: kindOf_def r findNode_append split: option.splits)
  show "siblingIds d1 e = siblingIds d e"
    by (auto simp: siblingIds_def r parentOf_append split: option.splits)
qed

lemma inner_has_parent:
  "z \<in> set (preorder cs) \<Longrightarrow> z \<in> set cs \<or> (\<exists>q\<in>set (preorder cs). z \<in> set (kids q))"
  by (induction cs rule: preorder.induct) auto

lemma child_of_subtree:
  assumes "distinct (ids f)" "parentOf r f = Some p" "y \<in> set (preorder f)"
    "r \<in> set (ids [y])" "r \<noteq> nid y"
  shows "nid p \<in> set (ids [y])"
proof -
  from assms(4) obtain z where z: "z \<in> set (preorder [y])" "nid z = r" by (auto simp: ids_def)
  obtain i k cs where y: "y = Node i k cs" by (cases y)
  from z assms(5) y have "z \<in> set (preorder cs)" by auto
  from inner_has_parent[OF this] have "\<exists>q. q \<in> set (preorder [y]) \<and> z \<in> set (kids q)"
  proof
    assume "z \<in> set cs"
    then have "y \<in> set (preorder [y]) \<and> z \<in> set (kids y)" using y by simp
    then show ?thesis by blast
  next
    assume "\<exists>q\<in>set (preorder cs). z \<in> set (kids q)"
    then show ?thesis using y by auto
  qed
  then obtain q where q: "q \<in> set (preorder [y])" "z \<in> set (kids q)" by blast
  have "q \<in> set (preorder f)" using q(1) preorder_sub[OF assms(3)] by auto
  then have "parentOf r f = Some q" using parentOf_distinct[OF assms(1) _ q(2)] z(2) by simp
  then have "q = p" using assms(2) by simp
  then show ?thesis using q(1) by (auto simp: ids_def)
qed

lemma parentOf_ids: "parentOf r f = Some p \<Longrightarrow> r \<in> set (ids f)"
  by (auto dest!: parentOf_in intro: child_in_ids)

lemma before_move:
  assumes "wfDoc d" "parentOf r (roots d) = Some p" "findNode m (roots d) = Some y"
    "nid p \<notin> set (ids [y])" "m \<noteq> r" "nkind y \<noteq> DocumentFragment"
  shows "\<exists>d'. before d r m = Inr d' \<and> wfDoc d' \<and> (\<forall>n. kindOf d' n = kindOf d n)
     \<and> (\<forall>e. e \<in> set (siblingIds d r) \<and> e \<noteq> m \<longrightarrow>
           (\<exists>p'. parentOf e (roots d') = Some p' \<and> nid p' = nid p)
           \<and> siblingIds d' e = insertBefore r [m] (filter (\<lambda>i. i \<noteq> m) (siblingIds d r)))"
proof -
  define f where "f = roots d"
  define d' where "d' = d\<lparr>roots := insBefore r [y] (prune m f)\<rparr>"
  have dist: "distinct (ids f)" using assms(1) by (simp add: wfDoc_def f_def)
  have par: "parentOf r f = Some p" and fy: "findNode m f = Some y"
    using assms(2,3) by (simp_all add: f_def)
  have yin: "y \<in> set (preorder f)" and ny: "nid y = m"
    using fy by (auto dest: findNode_in findNode_nid)
  have np: "nid p \<notin> nid ` set (preorder [y])" using assms(4) by (simp add: ids_def)
  have b: "before d r m = Inr d'"
    using assms(5,6) np by (simp add: before_def par[unfolded f_def] fy[unfolded f_def] d'_def f_def)
  have rn: "r \<notin> set (ids [y])"
    using child_of_subtree[OF dist par yin] assms(4,5) ny by auto
  have pm: "mset (entries (prune m f)) + mset (entries [y]) = mset (entries f)"
    using prune_entries[OF dist fy] .
  then have "mset (ids (prune m f) @ ids [y]) = mset (ids f)"
    by (metis ids_entries mset_map mset_append map_append)
  then have d2: "distinct (ids (prune m f) @ ids [y])" and s2: "set (ids (prune m f) @ ids [y]) = set (ids f)"
    using dist by (metis mset_eq_imp_distinct_iff, metis mset_eq_setD)
  have dp: "distinct (ids (prune m f))" using d2 by simp
  have rp: "r \<in> set (ids (prune m f))" using s2 rn parentOf_ids[OF par] by auto
  have m: "mset (entries (roots d')) = mset (entries (roots d))"
    using insBefore_entries[OF dp rp, of "[y]"] pm by (simp add: d'_def f_def)
  have w: "wfDoc d'" using wfDoc_entries[OF assms(1) m] by (simp add: d'_def)
  have k: "\<forall>n. kindOf d' n = kindOf d n" using kindOf_entries_eq[OF assms(1) m] by simp
  have sib: "(\<exists>p'. parentOf e (roots d') = Some p' \<and> nid p' = nid p)
           \<and> siblingIds d' e = insertBefore r [m] (filter (\<lambda>i. i \<noteq> m) (siblingIds d r))"
    if e: "e \<in> set (siblingIds d r)" "e \<noteq> m" for e
  proof -
    have "e \<in> nid ` set (kids p)" using e(1) assms(2) by (simp add: siblingIds_parent)
    from sibling_findNode[OF dist par this] have pe: "parentOf e f = Some p" by blast
    have ey: "parentOf e [y] = None" using no_parent_in_subtree[OF dist pe yin assms(4)] .
    have h: "\<forall>z\<in>set (preorder f). nid z = m \<longrightarrow> parentOf e [z] = None"
    proof (intro ballI impI)
      fix z assume z: "z \<in> set (preorder f)" "nid z = m"
      then have "z = y" using findNode_unique[OF dist fy] by blast
      then show "parentOf e [z] = None" using ey by simp
    qed
    have "parentOf e (prune m f) = Some (pruneNode m p)"
      using parentOf_prune[OF e(2) h] pe by simp
    moreover have "e \<notin> nid ` set [y]" using e(2) ny by simp
    ultimately have pe': "parentOf e (roots d') = Some (insNode r [y] (pruneNode m p))"
      using parentOf_insBefore[OF _ ey, of r "prune m f"] by (simp add: d'_def)
    show ?thesis
      using pe' assms(2) ny
      by (simp add: siblingIds_def insNode_def pruneNode_def map_nid_insBefore map_nid_prune)
  qed
  show ?thesis using b w k sib by blast
qed

lemma before_fragment:
  assumes "wfDoc d" "parentOf r (roots d) = Some p" "findNode m (roots d) = Some y"
    "nid p \<notin> set (ids [y])" "m \<noteq> r" "nkind y = DocumentFragment"
  shows "\<exists>d'. before d r m = Inr d' \<and> wfDoc d' \<and> (\<forall>n. kindOf d' n = kindOf d n)
     \<and> (\<forall>e. e \<in> set (siblingIds d r) \<and> e \<noteq> m \<longrightarrow>
           (\<exists>p'. parentOf e (roots d') = Some p' \<and> nid p' = nid p)
           \<and> siblingIds d' e = insertBefore r (map nid (kids y)) (siblingIds d r))"
proof -
  define f where "f = roots d"
  define d' where "d' = d\<lparr>roots := insBefore r (kids y) (dropKids m f)\<rparr>"
  have dist: "distinct (ids f)" using assms(1) by (simp add: wfDoc_def f_def)
  have par: "parentOf r f = Some p" and fy: "findNode m f = Some y"
    using assms(2,3) by (simp_all add: f_def)
  have yin: "y \<in> set (preorder f)" and ny: "nid y = m"
    using fy by (auto dest: findNode_in findNode_nid)
  have np: "nid p \<notin> nid ` set (preorder [y])" using assms(4) by (simp add: ids_def)
  have b: "before d r m = Inr d'"
    using assms(5,6) np by (simp add: before_def par[unfolded f_def] fy[unfolded f_def] d'_def f_def)
  have rn: "r \<notin> set (ids [y])"
    using child_of_subtree[OF dist par yin] assms(4,5) ny by auto
  have idy: "ids [y] = m # ids (kids y)" using ny by (cases y) simp
  have rk: "r \<notin> set (ids (kids y))" using rn idy by simp
  have pm: "mset (entries (dropKids m f)) + mset (entries (kids y)) = mset (entries f)"
    using dropKids_entries[OF dist fy] .
  then have "mset (ids (dropKids m f) @ ids (kids y)) = mset (ids f)"
    by (metis ids_entries mset_map mset_append map_append)
  then have d2: "distinct (ids (dropKids m f) @ ids (kids y))"
    and s2: "set (ids (dropKids m f) @ ids (kids y)) = set (ids f)"
    using dist by (metis mset_eq_imp_distinct_iff, metis mset_eq_setD)
  have dp: "distinct (ids (dropKids m f))" using d2 by simp
  have rp: "r \<in> set (ids (dropKids m f))" using s2 rk parentOf_ids[OF par] by auto
  have m: "mset (entries (roots d')) = mset (entries (roots d))"
    using insBefore_entries[OF dp rp, of "kids y"] pm by (simp add: d'_def f_def)
  have w: "wfDoc d'" using wfDoc_entries[OF assms(1) m] by (simp add: d'_def)
  have k: "\<forall>n. kindOf d' n = kindOf d n" using kindOf_entries_eq[OF assms(1) m] by simp
  have sib: "(\<exists>p'. parentOf e (roots d') = Some p' \<and> nid p' = nid p)
           \<and> siblingIds d' e = insertBefore r (map nid (kids y)) (siblingIds d r)"
    if e: "e \<in> set (siblingIds d r)" "e \<noteq> m" for e
  proof -
    have "e \<in> nid ` set (kids p)" using e(1) assms(2) by (simp add: siblingIds_parent)
    from sibling_findNode[OF dist par this] have pe: "parentOf e f = Some p" by blast
    have ey: "parentOf e [y] = None" using no_parent_in_subtree[OF dist pe yin assms(4)] .
    then have eyk: "e \<notin> nid ` set (kids y)" "parentOf e (kids y) = None"
      using parentOf_single_None[of e "nid y" "nkind y" "kids y"] by simp_all
    have h: "\<forall>z\<in>set (preorder f). nid z = m \<longrightarrow> parentOf e [z] = None"
    proof (intro ballI impI)
      fix z assume z: "z \<in> set (preorder f)" "nid z = m"
      then have "z = y" using findNode_unique[OF dist fy] by blast
      then show "parentOf e [z] = None" using ey by simp
    qed
    have pne: "nid p \<noteq> m" using assms(4) idy by simp
    have "parentOf e (dropKids m f) = Some (dropNode m p)"
      using parentOf_dropKids[OF h] pe by simp
    then have pe': "parentOf e (roots d') = Some (insNode r (kids y) (dropNode m p))"
      using parentOf_insBefore[OF eyk, of r "dropKids m f"] by (simp add: d'_def)
    show ?thesis
      using pe' assms(2) pne
      by (simp add: siblingIds_def insNode_def dropNode_def map_nid_insBefore map_nid_dropKids)
  qed
  show ?thesis using b w k sib by blast
qed

lemma takeWhile_filter:
  "P e \<Longrightarrow> takeWhile (\<lambda>i. i \<noteq> e) (filter P K) = filter P (takeWhile (\<lambda>i. i \<noteq> e) K)"
  by (induction K) auto

lemma tl_dropWhile_filter:
  "P s \<Longrightarrow> tl (dropWhile (\<lambda>i. i \<noteq> s) (filter P K)) = filter P (tl (dropWhile (\<lambda>i. i \<noteq> s) K))"
  by (induction K) auto

lemma between_filter:
  "P eb \<Longrightarrow> (\<And>s. sa = Some s \<Longrightarrow> P s)
     \<Longrightarrow> between sa eb (filter P K) = filter P (between sa eb K)"
  by (cases sa) (simp_all add: between_def takeWhile_filter tl_dropWhile_filter)

lemma insertBefore_simps [simp]:
  "insertBefore r ms [] = []"
  "insertBefore r ms (a # K) = (if a = r then ms @ [a] else [a]) @ insertBefore r ms K"
  by (simp_all add: insertBefore_def)

lemma takeWhile_skip:
  "e \<notin> set ms \<Longrightarrow> takeWhile (\<lambda>i. i \<noteq> e) (ms @ ys) = ms @ takeWhile (\<lambda>i. i \<noteq> e) ys"
  by (rule takeWhile_append2) auto

lemma takeWhile_insertBefore_other:
  "r \<noteq> e \<Longrightarrow> e \<notin> set ms
     \<Longrightarrow> takeWhile (\<lambda>i. i \<noteq> e) (insertBefore r ms K) = insertBefore r ms (takeWhile (\<lambda>i. i \<noteq> e) K)"
  by (induction K) (auto simp: takeWhile_skip)

lemma takeWhile_insertBefore_same:
  "e \<in> set K \<Longrightarrow> e \<notin> set ms
     \<Longrightarrow> takeWhile (\<lambda>i. i \<noteq> e) (insertBefore e ms K) = takeWhile (\<lambda>i. i \<noteq> e) K @ ms"
  by (induction K) (auto simp: takeWhile_skip)

lemma dropWhile_append_all: "(\<And>x. x \<in> set xs \<Longrightarrow> P x) \<Longrightarrow> dropWhile P (xs @ ys) = dropWhile P ys"
  by (induction xs) auto

lemma tl_dropWhile_insertBefore:
  "r \<noteq> s \<Longrightarrow> s \<notin> set ms
     \<Longrightarrow> tl (dropWhile (\<lambda>i. i \<noteq> s) (insertBefore r ms K))
         = insertBefore r ms (tl (dropWhile (\<lambda>i. i \<noteq> s) K))"
proof (induction K)
  case Nil
  then show ?case by simp
next
  case (Cons a K)
  have d: "dropWhile (\<lambda>i. i \<noteq> s) (ms @ ys) = dropWhile (\<lambda>i. i \<noteq> s) ys" for ys
    using Cons.prems(2) by (intro dropWhile_append_all) auto
  show ?case using Cons by (auto simp: d)
qed

lemma after_start:
  "s \<in> set (takeWhile (\<lambda>i. i \<noteq> eb) K) \<Longrightarrow> eb \<in> set K
     \<Longrightarrow> eb \<in> set (tl (dropWhile (\<lambda>i. i \<noteq> s) K))"
  by (induction K) (auto split: if_splits)

lemma between_insertBefore_other:
  "r \<noteq> eb \<Longrightarrow> eb \<notin> set ms \<Longrightarrow> (\<And>s. sa = Some s \<Longrightarrow> r \<noteq> s \<and> s \<notin> set ms)
     \<Longrightarrow> between sa eb (insertBefore r ms K) = insertBefore r ms (between sa eb K)"
  by (cases sa) (simp_all add: between_def takeWhile_insertBefore_other tl_dropWhile_insertBefore)

lemma between_insertBefore_end:
  "eb \<in> set K \<Longrightarrow> eb \<notin> set ms
     \<Longrightarrow> (\<And>s. sa = Some s \<Longrightarrow> s \<in> set (takeWhile (\<lambda>i. i \<noteq> eb) K) \<and> s \<notin> set ms)
     \<Longrightarrow> between sa eb (insertBefore eb ms K) = between sa eb K @ ms"
proof (cases sa)
  case None
  assume "eb \<in> set K" "eb \<notin> set ms"
  then show ?thesis using None by (simp add: between_def takeWhile_insertBefore_same)
next
  case (Some s)
  assume a: "eb \<in> set K" "eb \<notin> set ms"
    and b: "\<And>s. sa = Some s \<Longrightarrow> s \<in> set (takeWhile (\<lambda>i. i \<noteq> eb) K) \<and> s \<notin> set ms"
  from b[OF Some] have s: "s \<in> set (takeWhile (\<lambda>i. i \<noteq> eb) K)" "s \<notin> set ms" by auto
  have ne: "eb \<noteq> s" using s(1) by (auto dest: set_takeWhileD)
  have "eb \<in> set (tl (dropWhile (\<lambda>i. i \<noteq> s) K))" using after_start[OF s(1) a(1)] .
  then show ?thesis
    using Some a(2) s(2) ne
    by (simp add: between_def tl_dropWhile_insertBefore takeWhile_insertBefore_same)
qed

lemma between_subset: "set (between sa eb K) \<subseteq> set K"
proof (cases sa)
  case None
  then show ?thesis by (auto simp: between_def dest: set_takeWhileD)
next
  case (Some s)
  have "set (tl (dropWhile (\<lambda>i. i \<noteq> s) K)) \<subseteq> set K"
    by (metis list.set_sel(2) set_dropWhileD subsetI tl_Nil)
  then show ?thesis using Some by (auto simp: between_def dest!: set_takeWhileD)
qed

lemma between_not_end: "eb \<notin> set (between sa eb K)"
  by (cases sa) (auto simp: between_def dest: set_takeWhileD)

lemma distinct_tl_dropWhile: "distinct K \<Longrightarrow> distinct (tl (dropWhile P K))"
  by (metis distinct_dropWhile distinct_tl)

lemma between_distinct: "distinct K \<Longrightarrow> distinct (between sa eb K)"
  by (cases sa) (auto simp: between_def intro!: distinct_takeWhile distinct_tl_dropWhile)

lemma not_after_self: "distinct K \<Longrightarrow> s \<notin> set (tl (dropWhile (\<lambda>i. i \<noteq> s) K))"
  by (induction K) auto

lemma between_not_start: "distinct K \<Longrightarrow> s \<notin> set (between (Some s) eb K)"
  using not_after_self[of K s] by (auto simp: between_def dest!: set_takeWhileD)

lemma map_takeWhile_nid:
  "map nid (takeWhile (\<lambda>x. nid x \<noteq> n) ks) = takeWhile (\<lambda>i. i \<noteq> n) (map nid ks)"
  by (induction ks) auto

lemma map_tl_dropWhile_nid:
  "map nid (tl (dropWhile (\<lambda>x. nid x \<noteq> n) ks)) = tl (dropWhile (\<lambda>i. i \<noteq> n) (map nid ks))"
  by (induction ks) auto

lemma precedingSiblings_ids:
  "precedingSiblings d n = takeWhile (\<lambda>i. i \<noteq> n) (siblingIds d n)"
  by (simp add: precedingSiblings_def siblingIds_def map_takeWhile_nid split: option.splits)

lemma followingSiblings_ids:
  "followingSiblings d n = tl (dropWhile (\<lambda>i. i \<noteq> n) (siblingIds d n))"
  by (simp add: followingSiblings_def siblingIds_def map_tl_dropWhile_nid split: option.splits)

lemma anchoredD:
  assumes "anchored d sa eb"
  shows "wfDoc d" and "\<exists>p. parentOf eb (roots d) = Some p"
    and "distinct (siblingIds d eb)" and "eb \<in> set (siblingIds d eb)"
    and "sa = Some s \<Longrightarrow> s \<in> set (takeWhile (\<lambda>i. i \<noteq> eb) (siblingIds d eb))"
    and "sa = Some s \<Longrightarrow> siblingIds d s = siblingIds d eb"
proof -
  show w: "wfDoc d" using assms by (simp add: anchored_def)
  then have dist: "distinct (ids (roots d))" by (simp add: wfDoc_def)
  from assms obtain p where p: "parentOf eb (roots d) = Some p"
    by (auto simp: anchored_def parentNode_def)
  then show "\<exists>p. parentOf eb (roots d) = Some p" by blast
  have pin: "p \<in> set (preorder (roots d))" using p by (simp add: parentOf_in)
  show "distinct (siblingIds d eb)"
    using distinct_kids[OF dist pin] by (simp add: siblingIds_parent[OF p])
  show "eb \<in> set (siblingIds d eb)" using parentOf_in[OF p] by (simp add: siblingIds_parent[OF p])
  show s1: "sa = Some s \<Longrightarrow> s \<in> set (takeWhile (\<lambda>i. i \<noteq> eb) (siblingIds d eb))"
    using assms by (simp add: anchored_def precedingSiblings_ids)
  show "sa = Some s \<Longrightarrow> siblingIds d s = siblingIds d eb"
  proof -
    assume "sa = Some s"
    then have "s \<in> set (siblingIds d eb)" using s1 by (auto dest: set_takeWhileD)
    then have "s \<in> nid ` set (kids p)" by (simp add: siblingIds_parent[OF p])
    from sibling_findNode[OF dist p this] have "parentOf s (roots d) = Some p" by blast
    then show ?thesis by (simp add: siblingIds_def p)
  qed
qed

lemma anchoredI:
  assumes "wfDoc d" "parentOf eb (roots d) = Some p"
    "\<And>s. sa = Some s \<Longrightarrow> s \<in> set (takeWhile (\<lambda>i. i \<noteq> eb) (siblingIds d eb))"
  shows "anchored d sa eb"
  using assms by (cases sa) (auto simp: anchored_def parentNode_def precedingSiblings_ids)

lemma collect_between:
  assumes "anchored d sa eb"
  shows "collectChildNodes d sa (Some eb) = Inr (between sa eb (siblingIds d eb))"
proof (cases sa)
  case None
  then show ?thesis by (simp add: collectChildNodes_def between_def precedingSiblings_ids)
next
  case (Some s)
  then show ?thesis
    using anchoredD(6)[OF assms Some]
    by (simp add: collectChildNodes_def between_def followingSiblings_ids)
qed

text \<open>A node that has been removed stays parentless while other nodes are removed.\<close>

lemma parentOf_prune_self: "parentOf x (prune x f) = None"
proof (induction f rule: preorder.induct)
  case 1
  then show ?case by simp
next
  case (2 i k cs xs)
  have "x \<notin> nid ` set (prune x cs)" by (simp add: map_nid_prune flip: set_map)
  then show ?case using 2 by auto
qed

lemma parentOf_None_prune: "parentOf x f = None \<Longrightarrow> parentOf x (prune z f) = None"
proof (induction f rule: preorder.induct)
  case 1
  then show ?case by simp
next
  case (2 i k cs xs)
  from "2.prems" have a: "x \<notin> nid ` set cs" "parentOf x cs = None" "parentOf x xs = None"
    by (auto split: if_splits option.splits)
  have "x \<notin> nid ` set (prune z cs)" using a(1) by (simp add: map_nid_prune flip: set_map)
  then show ?case using "2.IH"(1)[OF a(2)] "2.IH"(2)[OF a(3)] by auto
qed

lemma parentOf_None_sub: "parentOf x f = None \<Longrightarrow> y \<in> set (preorder f) \<Longrightarrow> parentOf x [y] = None"
  using preorder_sub[of y f] by (auto simp: parentOf_def find_None_iff)

lemma removeNode_parentless:
  assumes "wfDoc d"
  shows "parentNode (removeNode d x) x = None"
    and "parentNode d z = None \<Longrightarrow> parentNode (removeNode d x) z = None"
proof -
  have dist: "distinct (ids (roots d))" using assms by (simp add: wfDoc_def)
  show "parentNode (removeNode d x) x = None"
  proof (cases "parentOf x (roots d)")
    case None
    then show ?thesis by (simp add: removeNode_def parentNode_def)
  next
    case (Some p)
    show ?thesis
    proof (cases "findNode x (roots d)")
      case None
      then show ?thesis using parentOf_None[OF _, of x "roots d"] Some
        by (metis findNode_Some_iff_ids option.distinct(1))
    next
      case (Some xn)
      have "nid xn = x" "xn \<in> set (preorder (roots d))"
        using Some by (auto dest: findNode_nid findNode_in)
      then have "x \<notin> set (ids (kids xn))" using self_not_under[OF dist] by blast
      then have "parentOf x [xn] = None"
        using parentOf_None[of x "kids xn"] toplevel_preorder[of _ "kids xn"]
        by (cases xn) (auto simp: ids_def)
      then show ?thesis
        using Some \<open>parentOf x (roots d) = Some p\<close>
        by (simp add: removeNode_def parentNode_def parentOf_append parentOf_prune_self)
    qed
  qed
  show "parentNode d z = None \<Longrightarrow> parentNode (removeNode d x) z = None"
  proof -
    assume "parentNode d z = None"
    then have z: "parentOf z (roots d) = None" by (simp add: parentNode_def)
    show ?thesis
    proof (cases "parentOf x (roots d)")
      case None
      then show ?thesis using z by (simp add: removeNode_def parentNode_def)
    next
      case (Some p)
      show ?thesis
      proof (cases "findNode x (roots d)")
        case None
        then show ?thesis using z Some by (simp add: removeNode_def parentNode_def)
      next
        case (Some xn)
        have "parentOf z [xn] = None" using parentOf_None_sub[OF z findNode_in[OF Some]] .
        then show ?thesis
          using Some \<open>parentOf x (roots d) = Some p\<close> parentOf_None_prune[OF z, of x]
          by (simp add: removeNode_def parentNode_def parentOf_append)
      qed
    qed
  qed
qed

lemma removeOthers_region:
  assumes "anchored d sa eb" "distinct X" "set X \<subseteq> set (siblingIds d eb)" "eb \<notin> set X"
    "\<And>s. sa = Some s \<Longrightarrow> s \<notin> set X"
  shows "anchored (removeOthers d X keep) sa eb
     \<and> siblingIds (removeOthers d X keep) eb
         = filter (\<lambda>i. i \<notin> set X \<or> Some i = keep) (siblingIds d eb)
     \<and> (\<forall>n. kindOf (removeOthers d X keep) n = kindOf d n)
     \<and> (\<forall>x\<in>set X. Some x \<noteq> keep \<longrightarrow> parentNode (removeOthers d X keep) x = None)
     \<and> (\<forall>z. parentNode d z = None \<longrightarrow> parentNode (removeOthers d X keep) z = None)
     \<and> nextId (removeOthers d X keep) = nextId d"
  using assms
proof (induction X arbitrary: d)
  case Nil
  then show ?case by simp
next
  case (Cons x X)
  note anc = Cons.prems(1)
  from anchoredD[OF anc] obtain p where w: "wfDoc d" and p: "parentOf eb (roots d) = Some p"
    by blast
  show ?case
  proof (cases "Some x = keep")
    case True
    have "anchored (removeOthers d X keep) sa eb
     \<and> siblingIds (removeOthers d X keep) eb
         = filter (\<lambda>i. i \<notin> set X \<or> Some i = keep) (siblingIds d eb)
     \<and> (\<forall>n. kindOf (removeOthers d X keep) n = kindOf d n)
     \<and> (\<forall>x\<in>set X. Some x \<noteq> keep \<longrightarrow> parentNode (removeOthers d X keep) x = None)
     \<and> (\<forall>z. parentNode d z = None \<longrightarrow> parentNode (removeOthers d X keep) z = None)
     \<and> nextId (removeOthers d X keep) = nextId d"
      using Cons.prems by (intro Cons.IH) auto
    moreover have "filter (\<lambda>i. i \<notin> set X \<or> Some i = keep) (siblingIds d eb)
        = filter (\<lambda>i. i \<notin> set (x # X) \<or> Some i = keep) (siblingIds d eb)"
      using True by (intro filter_cong) auto
    ultimately show ?thesis using True by simp
  next
    case False
    define d1 where "d1 = removeNode d x"
    have xs: "x \<in> set (siblingIds d eb)" and xe: "x \<noteq> eb" using Cons.prems(3,4) by auto
    note rl = removeNode_sibling[OF w p xs xe, folded d1_def]
    from rl(2) obtain p' where p': "parentOf eb (roots d1) = Some p'" by blast
    have a1: "anchored d1 sa eb"
    proof (rule anchoredI[OF rl(1) p'])
      fix s assume s: "sa = Some s"
      then have "s \<noteq> x" using Cons.prems(5) by auto
      then show "s \<in> set (takeWhile (\<lambda>i. i \<noteq> eb) (siblingIds d1 eb))"
        using anchoredD(5)[OF anc s] xe by (simp add: rl(3) takeWhile_filter)
    qed
    have sub: "set X \<subseteq> set (siblingIds d1 eb)"
      using Cons.prems(2,3) by (auto simp: rl(3))
    have ih: "anchored (removeOthers d1 X keep) sa eb
     \<and> siblingIds (removeOthers d1 X keep) eb
         = filter (\<lambda>i. i \<notin> set X \<or> Some i = keep) (siblingIds d1 eb)
     \<and> (\<forall>n. kindOf (removeOthers d1 X keep) n = kindOf d1 n)
     \<and> (\<forall>x\<in>set X. Some x \<noteq> keep \<longrightarrow> parentNode (removeOthers d1 X keep) x = None)
     \<and> (\<forall>z. parentNode d1 z = None \<longrightarrow> parentNode (removeOthers d1 X keep) z = None)
     \<and> nextId (removeOthers d1 X keep) = nextId d1"
      using Cons.prems(2,4,5) by (intro Cons.IH[OF a1 _ sub]) auto
    have f: "filter (\<lambda>i. i \<notin> set X \<or> Some i = keep) (siblingIds d1 eb)
        = filter (\<lambda>i. i \<notin> set (x # X) \<or> Some i = keep) (siblingIds d eb)"
      using False by (auto simp: rl(3) intro!: filter_cong)
    have px: "parentNode d1 x = None" using removeNode_parentless(1)[OF w] by (simp add: d1_def)
    have pz: "\<And>z. parentNode d z = None \<Longrightarrow> parentNode d1 z = None"
      using removeNode_parentless(2)[OF w] by (simp add: d1_def)
    have nx: "nextId d1 = nextId d" by (simp add: d1_def removeNode_def split: option.splits)
    have r: "removeOthers d (x # X) keep = removeOthers d1 X keep"
      using False by (simp add: d1_def)
    show ?thesis
      unfolding r using ih f rl(4) px pz nx by auto
  qed
qed

section \<open>The update rule on a node anchor\<close>

lemma region_facts:
  assumes "anchored d sa eb"
  defines "R \<equiv> between sa eb (siblingIds d eb)"
  shows "distinct R" and "set R \<subseteq> set (siblingIds d eb)" and "eb \<notin> set R"
    and "sa = Some s \<Longrightarrow> s \<notin> set R"
  using anchoredD(3)[OF assms(1)] between_subset[of sa eb] between_not_end[of eb sa]
    between_not_start[of "siblingIds d eb" s eb]
  by (auto simp: R_def between_distinct)

lemma filter_eq_one: "distinct R \<Longrightarrow> t \<in> set R \<Longrightarrow> filter (\<lambda>i. i = t) R = [t]"
  by (induction R) (auto simp: filter_empty_conv)

lemma filter_keep_one:
  assumes "distinct R" "t \<in> set R"
  shows "filter (\<lambda>i. i \<notin> set R \<or> Some i = Some t) R = [t]"
proof -
  have "filter (\<lambda>i. i \<notin> set R \<or> Some i = Some t) R = filter (\<lambda>i. i = t) R"
    by (intro filter_cong) auto
  then show ?thesis using filter_eq_one[OF assms] by simp
qed

lemma filter_keep_none:
  "t \<notin> set R \<Longrightarrow> filter (\<lambda>i. i \<notin> set R \<or> Some i = Some t) R = []"
  "filter (\<lambda>i. i \<notin> set R \<or> Some i = None) R = []"
  by (auto simp: filter_empty_conv)

lemma set_insertBefore: "set (insertBefore r ms K) = set K \<union> (if r \<in> set K then set ms else {})"
  by (induction K) auto

lemma wfDoc_updKind: "wfDoc d \<Longrightarrow> wfDoc (d\<lparr>roots := updKind n g (roots d)\<rparr>)"
  by (simp add: wfDoc_def)

lemma siblingIds_updKind: "siblingIds (d\<lparr>roots := updKind n g (roots d)\<rparr>) e = siblingIds d e"
  by (auto simp: siblingIds_def parentOf_updKind split: option.splits)

lemma anchored_updKind:
  "anchored d sa eb \<Longrightarrow> anchored (d\<lparr>roots := updKind n g (roots d)\<rparr>) sa eb"
  using updKind_frame(1,3)[of "d\<lparr>roots := updKind n g (roots d)\<rparr>" n g d]
  by (cases sa) (simp_all add: anchored_def wfDoc_updKind)

text \<open>Absent values.\<close>

lemma update_absent:
  assumes "anchored d sa eb" "arg = AFalse \<or> arg = ANull \<or> arg = AUndefined"
  shows "\<exists>d'. updateNodeSlot d sa (Some eb) arg = Inr d' \<and> anchored d' sa eb
      \<and> collectChildNodes d' sa (Some eb) = Inr []
      \<and> (\<forall>x\<in>set (between sa eb (siblingIds d eb)). parentNode d' x = None)"
proof -
  define R where "R = between sa eb (siblingIds d eb)"
  note rf = region_facts[OF assms(1), folded R_def]
  define d' where "d' = removeOthers d R None"
  have u: "updateNodeSlot d sa (Some eb) arg = Inr d'"
    using assms(2) by (auto simp: updateNodeSlot_def collect_between[OF assms(1)] R_def d'_def)
  from removeOthers_region[OF assms(1) rf(1,2,3), of None] rf(4)
  have a: "anchored d' sa eb"
    and k: "siblingIds d' eb = filter (\<lambda>i. i \<notin> set R \<or> Some i = None) (siblingIds d eb)"
    and p: "\<forall>x\<in>set R. parentNode d' x = None"
    by (auto simp: d'_def)
  have "between sa eb (siblingIds d' eb) = filter (\<lambda>i. i \<notin> set R \<or> Some i = None) R"
    unfolding k R_def[symmetric]
    using rf(3,4) by (subst between_filter) (auto simp: R_def)
  then have "collectChildNodes d' sa (Some eb) = Inr []"
    by (simp add: collect_between[OF a] filter_keep_none)
  with u a p show ?thesis by (auto simp: R_def)
qed

lemma siblingIds_in_ids: "x \<in> set (siblingIds d e) \<Longrightarrow> x \<in> set (ids (roots d))"
proof (cases "parentOf e (roots d)")
  case None
  assume "x \<in> set (siblingIds d e)"
  then show ?thesis using None by (simp add: siblingIds_def)
next
  case (Some p)
  assume "x \<in> set (siblingIds d e)"
  then obtain c where "c \<in> set (kids p)" "nid c = x" using Some by (auto simp: siblingIds_def)
  then show ?thesis using parentOf_in[OF Some] child_in_ids by blast
qed

lemma isText_kind: "isText d t \<Longrightarrow> \<exists>old. kindOf d t = Some (Text old)"
  by (auto simp: isText_def split: option.splits kind.splits)

text \<open>Strings.\<close>

lemma update_string:
  assumes "anchored d sa eb"
  shows "\<exists>d' t. updateNodeSlot d sa (Some eb) (AString s) = Inr d' \<and> anchored d' sa eb
      \<and> collectChildNodes d' sa (Some eb) = Inr [t] \<and> kindOf d' t = Some (Text s)
      \<and> (\<forall>x\<in>set (between sa eb (siblingIds d eb)). x \<noteq> t \<longrightarrow> parentNode d' x = None)
      \<and> (case find (isText d) (between sa eb (siblingIds d eb)) of
            Some t0 \<Rightarrow> t = t0 \<and> nextId d' = nextId d
          | None \<Rightarrow> t = nextId d)"
proof -
  define K where "K = siblingIds d eb"
  define R where "R = between sa eb K"
  note rf = region_facts[OF assms, folded K_def, folded R_def]
  note cb = collect_between[OF assms, folded K_def, folded R_def]
  show ?thesis
  proof (cases "find (isText d) R")
    case (Some t)
    then have tR: "t \<in> set R" and tt: "isText d t"
      by (auto simp: find_Some_iff in_set_conv_nth)
    define d0 where "d0 = setData d t s"
    have r0: "roots d0 = updKind t (withData s) (roots d)" by (simp add: d0_def setData_def)
    have d0eq: "d0 = d\<lparr>roots := updKind t (withData s) (roots d)\<rparr>" by (simp add: d0_def setData_def)
    have a0: "anchored d0 sa eb" unfolding d0eq using assms by (rule anchored_updKind)
    have k0: "siblingIds d0 eb = K" unfolding d0eq K_def by (rule siblingIds_updKind)
    define d' where "d' = removeOthers d0 R (Some t)"
    have u: "updateNodeSlot d sa (Some eb) (AString s) = Inr d'"
      by (simp add: updateNodeSlot_def cb Some d'_def d0_def)
    from removeOthers_region[OF a0 rf(1) _ rf(3), of "Some t"] rf(2,4) k0
    have a: "anchored d' sa eb"
      and k: "siblingIds d' eb = filter (\<lambda>i. i \<notin> set R \<or> Some i = Some t) K"
      and kk: "\<forall>n. kindOf d' n = kindOf d0 n"
      and p: "\<forall>x\<in>set R. Some x \<noteq> Some t \<longrightarrow> parentNode d' x = None"
      and nx: "nextId d' = nextId d0"
      by (auto simp: d'_def)
    have eq: "between sa eb (siblingIds d' eb) = filter (\<lambda>i. i \<notin> set R \<or> Some i = Some t) R"
      unfolding k R_def
      using rf(3,4) by (subst between_filter) (auto simp: R_def)
    have c: "collectChildNodes d' sa (Some eb) = Inr [t]"
      by (simp only: collect_between[OF a] eq filter_keep_one[OF rf(1) tR])
    from isText_kind[OF tt] obtain old where "kindOf d t = Some (Text old)" by blast
    then have "kindOf d0 t = Some (Text s)" using updKind_frame(7)[OF r0] by simp
    then have kt: "kindOf d' t = Some (Text s)" using kk by simp
    have "nextId d' = nextId d" using nx by (simp add: d0_def setData_def)
    then show ?thesis
      using u a c kt p Some by (intro exI[of _ d'] exI[of _ t]) (auto simp: R_def K_def)
  next
    case None
    obtain d1 c where ct: "createTextNode d s = (d1, c)" by (cases "createTextNode d s")
    from anchoredD[OF assms] obtain p where w: "wfDoc d" and p: "parentOf eb (roots d) = Some p"
      by blast
    note tl = createTextNode_laws[OF w ct]
    have p1: "parentOf eb (roots d1) = Some p" using tl(5)[OF p] .
    have k1: "siblingIds d1 eb = K" using tl(7) by (simp add: K_def)
    have cK: "c \<notin> set K"
      using siblingIds_in_ids[of c d eb] w tl(2) by (auto simp: K_def wfDoc_def)
    have ce: "c \<noteq> eb" using cK anchoredD(4)[OF assms] by (auto simp: K_def)
    have "nid p \<in> set (ids (roots d))" using parentOf_in[OF p] by (auto intro: nid_in_ids)
    then have np: "nid p \<notin> set (ids [Node c (Text s) []])"
      using w tl(2) by (auto simp: wfDoc_def)
    from before_move[OF tl(1) p1 tl(4) np ce] obtain d2 where
      b: "before d1 eb c = Inr d2" and w2: "wfDoc d2"
      and kk2: "\<forall>n. kindOf d2 n = kindOf d1 n"
      and sib: "\<forall>e. e \<in> set (siblingIds d1 eb) \<and> e \<noteq> c \<longrightarrow>
           (\<exists>p'. parentOf e (roots d2) = Some p' \<and> nid p' = nid p)
           \<and> siblingIds d2 e = insertBefore eb [c] (filter (\<lambda>i. i \<noteq> c) (siblingIds d1 eb))"
      by auto
    have ebK: "eb \<in> set K" using anchoredD(4)[OF assms] by (simp add: K_def)
    have fK: "filter (\<lambda>i. i \<noteq> c) K = K" using cK by (auto simp: filter_id_conv)
    from sib ebK ce k1 fK obtain p2 where p2: "parentOf eb (roots d2) = Some p2"
      and k2: "siblingIds d2 eb = insertBefore eb [c] K" by auto
    have sK: "\<And>s. sa = Some s \<Longrightarrow> s \<in> set (takeWhile (\<lambda>i. i \<noteq> eb) K) \<and> s \<notin> set [c]"
      using anchoredD(5)[OF assms] cK by (auto simp: K_def dest: set_takeWhileD)
    have a2: "anchored d2 sa eb"
    proof (rule anchoredI[OF w2 p2])
      fix s' assume "sa = Some s'"
      then show "s' \<in> set (takeWhile (\<lambda>i. i \<noteq> eb) (siblingIds d2 eb))"
        using sK ebK ce by (simp add: k2 takeWhile_insertBefore_same)
    qed
    have b2: "between sa eb (siblingIds d2 eb) = R @ [c]"
      unfolding k2 R_def using ebK ce sK by (intro between_insertBefore_end) auto
    have sub2: "set R \<subseteq> set (siblingIds d2 eb)"
      using rf(2) by (auto simp: k2 set_insertBefore)
    define d' where "d' = removeOthers d2 R (Some c)"
    have u: "updateNodeSlot d sa (Some eb) (AString s) = Inr d'"
      by (simp add: updateNodeSlot_def cb None ct b d'_def)
    from removeOthers_region[OF a2 rf(1) sub2 rf(3), of "Some c"] rf(4)
    have a: "anchored d' sa eb"
      and k: "siblingIds d' eb = filter (\<lambda>i. i \<notin> set R \<or> Some i = Some c) (siblingIds d2 eb)"
      and kk: "\<forall>n. kindOf d' n = kindOf d2 n"
      and pp: "\<forall>x\<in>set R. Some x \<noteq> Some c \<longrightarrow> parentNode d' x = None"
      by (auto simp: d'_def)
    have cR: "c \<notin> set R" using cK rf(2) by auto
    have "between sa eb (siblingIds d' eb)
          = filter (\<lambda>i. i \<notin> set R \<or> Some i = Some c) (between sa eb (siblingIds d2 eb))"
      unfolding k using rf(3,4) by (intro between_filter) auto
    also have "\<dots> = [c]" using cR by (auto simp: b2 filter_empty_conv)
    finally have c: "collectChildNodes d' sa (Some eb) = Inr [c]"
      by (simp add: collect_between[OF a])
    have kt: "kindOf d' c = Some (Text s)" using kk kk2 tl(6) by simp
    show ?thesis
      using u a c kt pp None tl(2)
      by (intro exI[of _ d'] exI[of _ c]) (auto simp: R_def K_def)
  qed
qed

lemma same_id_same_node:
  "distinct (ids f) \<Longrightarrow> p \<in> set (preorder f) \<Longrightarrow> q \<in> set (preorder f) \<Longrightarrow> nid q = nid p
     \<Longrightarrow> q = p"
  by (metis findNode_distinct option.inject)

lemma parent_in_subtree:
  assumes "distinct (ids f)" "parentOf e f = Some p" "y \<in> set (preorder f)"
    "nid p \<in> set (ids [y])"
  shows "e \<in> set (ids [y])"
proof -
  from assms(4) obtain q where q: "q \<in> set (preorder [y])" "nid q = nid p" by (auto simp: ids_def)
  have "q \<in> set (preorder f)" using q(1) preorder_sub[OF assms(3)] by auto
  then have "q = p" using same_id_same_node[OF assms(1) _ _ q(2)] parentOf_in[OF assms(2)] by blast
  moreover obtain c where "c \<in> set (kids p)" "nid c = e" using parentOf_in[OF assms(2)] by auto
  ultimately show ?thesis using q(1) child_in_ids[of q "[y]" c] by auto
qed

lemma kids_disjoint:
  assumes "distinct (ids f)" "parentOf e f = Some p" "y \<in> set (preorder f)"
    "nid p \<notin> set (ids [y])"
  shows "set (map nid (kids y)) \<inter> set (map nid (kids p)) = {}"
proof (rule ccontr)
  assume "set (map nid (kids y)) \<inter> set (map nid (kids p)) \<noteq> {}"
  then obtain c1 c2 where c: "c1 \<in> set (kids y)" "c2 \<in> set (kids p)" "nid c1 = nid c2" by auto
  have "parentOf (nid c1) f = Some y" using parentOf_distinct[OF assms(1,3) c(1)] .
  moreover have "parentOf (nid c2) f = Some p"
    using parentOf_distinct[OF assms(1) _ c(2)] parentOf_in[OF assms(2)] by blast
  ultimately have "y = p" using c(3) by simp
  moreover have "nid y \<in> set (ids [y])" by (cases y) simp
  ultimately have "nid p \<in> set (ids [y])" by simp
  then show False using assms(4) by simp
qed

lemma previousSibling_last:
  "precedingSiblings d e = xs @ [x] \<Longrightarrow> previousSibling d e = Some x"
  by (cases xs) (simp_all add: previousSibling_def)

text \<open>Nodes.\<close>

lemma update_node:
  assumes "anchored d sa eb" "findNode n (roots d) = Some y" "eb \<notin> set (ids [y])"
    "sa \<noteq> Some n"
  shows "\<exists>d'. updateNodeSlot d sa (Some eb) (ANode n) = Inr d' \<and> anchored d' sa eb
     \<and> collectChildNodes d' sa (Some eb)
         = Inr (if n \<notin> set (between sa eb (siblingIds d eb)) \<and> nkind y = DocumentFragment
                then map nid (kids y) else [n])
     \<and> (\<forall>x\<in>set (between sa eb (siblingIds d eb)). x \<noteq> n \<longrightarrow> parentNode d' x = None)
     \<and> (n \<in> set (between sa eb (siblingIds d eb))
          \<longrightarrow> d' = removeOthers d (between sa eb (siblingIds d eb)) (Some n))
     \<and> (n \<notin> set (between sa eb (siblingIds d eb))
          \<longrightarrow> (\<exists>d1. before d eb n = Inr d1
                 \<and> d' = removeOthers d1 (between sa eb (siblingIds d eb)) (Some n)
                 \<and> (nkind y \<noteq> DocumentFragment \<longrightarrow> previousSibling d1 eb = Some n)))"
proof -
  define K where "K = siblingIds d eb"
  define R where "R = between sa eb K"
  note rf = region_facts[OF assms(1), folded K_def, folded R_def]
  note cb = collect_between[OF assms(1), folded K_def, folded R_def]
  from anchoredD[OF assms(1)] obtain p where w: "wfDoc d" and p: "parentOf eb (roots d) = Some p"
    by blast
  have dist: "distinct (ids (roots d))" using w by (simp add: wfDoc_def)
  have ebK: "eb \<in> set K" using anchoredD(4)[OF assms(1)] by (simp add: K_def)
  have sK: "\<And>s. sa = Some s \<Longrightarrow> s \<in> set (takeWhile (\<lambda>i. i \<noteq> eb) K)"
    using anchoredD(5)[OF assms(1)] by (simp add: K_def)
  have yin: "y \<in> set (preorder (roots d))" and ny: "nid y = n"
    using assms(2) by (auto dest: findNode_in findNode_nid)
  have ne: "n \<noteq> eb" using assms(3) ny by (cases y) auto
  show ?thesis
  proof (cases "n \<in> set R")
    case True
    define d' where "d' = removeOthers d R (Some n)"
    have u: "updateNodeSlot d sa (Some eb) (ANode n) = Inr d'"
      using True by (simp add: updateNodeSlot_def cb d'_def)
    from removeOthers_region[OF assms(1) rf(1) _ rf(3), of "Some n"] rf(2,4)
    have a: "anchored d' sa eb"
      and k: "siblingIds d' eb = filter (\<lambda>i. i \<notin> set R \<or> Some i = Some n) K"
      and pp: "\<forall>x\<in>set R. Some x \<noteq> Some n \<longrightarrow> parentNode d' x = None"
      by (auto simp: d'_def K_def)
    have eq: "between sa eb (siblingIds d' eb) = filter (\<lambda>i. i \<notin> set R \<or> Some i = Some n) R"
      unfolding k R_def
      using rf(3,4) by (subst between_filter) (auto simp: R_def)
    have c: "collectChildNodes d' sa (Some eb) = Inr [n]"
      by (simp only: collect_between[OF a] eq filter_keep_one[OF rf(1) True])
    show ?thesis
      using u a c pp True by (intro exI[of _ d']) (auto simp: R_def K_def d'_def)
  next
    case False
    have np: "nid p \<notin> set (ids [y])"
      using parent_in_subtree[OF dist p yin] assms(3) by blast
    have sn: "\<And>s. sa = Some s \<Longrightarrow> s \<noteq> n" using assms(4) by auto
    show ?thesis
    proof (cases "nkind y = DocumentFragment")
      case nf: False
      from before_move[OF w p assms(2) np ne nf] obtain d1 where
        b: "before d eb n = Inr d1" and w1: "wfDoc d1"
        and sib: "\<forall>e. e \<in> set (siblingIds d eb) \<and> e \<noteq> n \<longrightarrow>
           (\<exists>p'. parentOf e (roots d1) = Some p' \<and> nid p' = nid p)
           \<and> siblingIds d1 e = insertBefore eb [n] (filter (\<lambda>i. i \<noteq> n) (siblingIds d eb))"
        by auto
      define K0 where "K0 = filter (\<lambda>i. i \<noteq> n) K"
      from sib ebK ne obtain p1 where p1: "parentOf eb (roots d1) = Some p1"
        and k1: "siblingIds d1 eb = insertBefore eb [n] K0" by (auto simp: K_def K0_def)
      have eb0: "eb \<in> set K0" using ebK ne by (simp add: K0_def)
      have s0: "\<And>s. sa = Some s \<Longrightarrow> s \<in> set (takeWhile (\<lambda>i. i \<noteq> eb) K0) \<and> s \<notin> set [n]"
        using sK sn ne by (auto simp: K0_def takeWhile_filter)
      have a1: "anchored d1 sa eb"
      proof (rule anchoredI[OF w1 p1])
        fix s' assume "sa = Some s'"
        then show "s' \<in> set (takeWhile (\<lambda>i. i \<noteq> eb) (siblingIds d1 eb))"
          using s0 eb0 ne by (simp add: k1 takeWhile_insertBefore_same)
      qed
      have "between sa eb K0 = filter (\<lambda>i. i \<noteq> n) R"
        unfolding K0_def R_def using ne sn by (intro between_filter) auto
      then have r0: "between sa eb K0 = R" using False by (auto simp: filter_id_conv)
      have b1: "between sa eb (siblingIds d1 eb) = R @ [n]"
        unfolding k1 using eb0 ne s0 r0 between_insertBefore_end[of eb K0 "[n]" sa] by auto
      have sub1: "set R \<subseteq> set (siblingIds d1 eb)"
        using rf(2) False by (auto simp: k1 K0_def set_insertBefore)
      define d' where "d' = removeOthers d1 R (Some n)"
      have u: "updateNodeSlot d sa (Some eb) (ANode n) = Inr d'"
        using False by (simp add: updateNodeSlot_def cb b d'_def)
      from removeOthers_region[OF a1 rf(1) sub1 rf(3), of "Some n"] rf(4)
      have a: "anchored d' sa eb"
        and k: "siblingIds d' eb = filter (\<lambda>i. i \<notin> set R \<or> Some i = Some n) (siblingIds d1 eb)"
        and pp: "\<forall>x\<in>set R. Some x \<noteq> Some n \<longrightarrow> parentNode d' x = None"
        by (auto simp: d'_def)
      have "between sa eb (siblingIds d' eb)
          = filter (\<lambda>i. i \<notin> set R \<or> Some i = Some n) (between sa eb (siblingIds d1 eb))"
        unfolding k using rf(3,4) by (intro between_filter) auto
      also have "\<dots> = [n]" using False by (auto simp: b1 filter_empty_conv)
      finally have c: "collectChildNodes d' sa (Some eb) = Inr [n]"
        by (simp add: collect_between[OF a])
      have "precedingSiblings d1 eb = takeWhile (\<lambda>i. i \<noteq> eb) K0 @ [n]"
        using eb0 ne by (simp add: precedingSiblings_ids k1 takeWhile_insertBefore_same)
      then have ps: "previousSibling d1 eb = Some n" by (rule previousSibling_last)
      show ?thesis
        using u a c pp False nf b ps
        by (intro exI[of _ d']) (auto simp: R_def K_def d'_def)
    next
      case fr: True
      define ms where "ms = map nid (kids y)"
      from before_fragment[OF w p assms(2) np ne fr] obtain d1 where
        b: "before d eb n = Inr d1" and w1: "wfDoc d1"
        and sib: "\<forall>e. e \<in> set (siblingIds d eb) \<and> e \<noteq> n \<longrightarrow>
           (\<exists>p'. parentOf e (roots d1) = Some p' \<and> nid p' = nid p)
           \<and> siblingIds d1 e = insertBefore eb ms (siblingIds d eb)"
        by (auto simp: ms_def)
      from sib ebK ne obtain p1 where p1: "parentOf eb (roots d1) = Some p1"
        and k1: "siblingIds d1 eb = insertBefore eb ms K" by (auto simp: K_def)
      have dj: "set ms \<inter> set K = {}"
        using kids_disjoint[OF dist p yin np] by (simp add: ms_def K_def siblingIds_parent[OF p])
      have ebm: "eb \<notin> set ms" using dj ebK by auto
      have s0: "\<And>s. sa = Some s \<Longrightarrow> s \<in> set (takeWhile (\<lambda>i. i \<noteq> eb) K) \<and> s \<notin> set ms"
        using sK dj by (auto dest: set_takeWhileD)
      have a1: "anchored d1 sa eb"
      proof (rule anchoredI[OF w1 p1])
        fix s' assume "sa = Some s'"
        then show "s' \<in> set (takeWhile (\<lambda>i. i \<noteq> eb) (siblingIds d1 eb))"
          using s0 ebK ebm by (simp add: k1 takeWhile_insertBefore_same)
      qed
      have b1: "between sa eb (siblingIds d1 eb) = R @ ms"
        unfolding k1 R_def using ebK ebm s0 by (intro between_insertBefore_end) auto
      have sub1: "set R \<subseteq> set (siblingIds d1 eb)"
        using rf(2) by (auto simp: k1 set_insertBefore)
      define d' where "d' = removeOthers d1 R (Some n)"
      have u: "updateNodeSlot d sa (Some eb) (ANode n) = Inr d'"
        using False by (simp add: updateNodeSlot_def cb b d'_def)
      from removeOthers_region[OF a1 rf(1) sub1 rf(3), of "Some n"] rf(4)
      have a: "anchored d' sa eb"
        and k: "siblingIds d' eb = filter (\<lambda>i. i \<notin> set R \<or> Some i = Some n) (siblingIds d1 eb)"
        and pp: "\<forall>x\<in>set R. Some x \<noteq> Some n \<longrightarrow> parentNode d' x = None"
        by (auto simp: d'_def)
      have mR: "set ms \<inter> set R = {}" using dj rf(2) by auto
      have "between sa eb (siblingIds d' eb)
          = filter (\<lambda>i. i \<notin> set R \<or> Some i = Some n) (between sa eb (siblingIds d1 eb))"
        unfolding k using rf(3,4) by (intro between_filter) auto
      also have "\<dots> = ms"
      proof -
        have "filter (\<lambda>i. i \<notin> set R \<or> Some i = Some n) R = []"
          using False by (auto simp: filter_empty_conv)
        moreover have "filter (\<lambda>i. i \<notin> set R \<or> Some i = Some n) ms = ms"
          using mR by (auto simp: filter_id_conv)
        ultimately show ?thesis by (simp only: b1 filter_append append_Nil)
      qed
      finally have c: "collectChildNodes d' sa (Some eb) = Inr ms"
        by (simp add: collect_between[OF a])
      show ?thesis
        using u a c pp False fr b
        by (intro exI[of _ d']) (auto simp: R_def K_def d'_def ms_def)
    qed
  qed
qed

lemma updKind_id:
  "(\<forall>x\<in>set (preorder f). nid x = n \<longrightarrow> g (nkind x) = nkind x) \<Longrightarrow> updKind n g f = f"
  by (induction f rule: preorder.induct) auto

lemma setData_same:
  assumes "wfDoc d" "kindOf d t = Some (Text s)"
  shows "setData d t s = d"
proof -
  have dist: "distinct (ids (roots d))" using assms(1) by (simp add: wfDoc_def)
  from assms(2) obtain y where y: "findNode t (roots d) = Some y" "nkind y = Text s"
    by (auto simp: kindOf_def)
  have "\<forall>x\<in>set (preorder (roots d)). nid x = t \<longrightarrow> withData s (nkind x) = nkind x"
    using findNode_unique[OF dist y(1)] y(2) by auto
  then have "updKind t (withData s) (roots d) = roots d" by (rule updKind_id)
  then show ?thesis by (simp add: setData_def)
qed

section \<open>Anchors out of place, and arguments that are boundaries\<close>

text \<open>
  The engine on the template of two adjacent interpolations, and the update rule with a
  boundary of the anchor, or the parent of one, as the argument: evaluated.
\<close>

lemma adjacent_compiles:
  "createTemplate adjacentParser [utf16 ''<div>'', [], utf16 ''</div>''] = Some (Inr adjacentTemplate)"
  by (simp add: createTemplate_def walkTemplate_def parseTemplate_def dom_defs utf16_def replacement_def
      walk.simps splitMarkers.simps pathToNode_def pathToNodeLoop.simps Let_def adjacentTemplate_def
      adjacentParser_def)

lemmas run_defs = createTemplateInstance_def importNode_def childAt_def previousSibling_def
  nextSibling_def precedingSiblings_def followingSiblings_def updateNodeSlot_def
  collectChildNodes_def isText_def kindOf_def setData_def findNode_def parentOf_def
  removeNode_def createTextNode_def before_def childNodes_def parentNode_def

lemma adjacent_instance:
  "createTemplateInstance validName emptyDocument adjacentTemplate [ANull, AString (utf16 ''x'')]
     = Inr (secondSlotDoc [Node 5 (Text (utf16 ''x'')) []],
            \<lparr>fragment = 0,
             instanceSlots = [NodeSlot None (Some 3), NodeSlot (Some 2) (Some 4)],
             nodeSlots = [NodeSlot None (Some 3), NodeSlot (Some 2) (Some 4)],
             attrValueSlots = []\<rparr>)"
  by (simp add: run_defs adjacentTemplate_def secondSlotDoc_def emptyDocument_def
      utf16_def replacement_def Let_def)

lemma adjacent_instance2:
  "createTemplateInstance validName emptyDocument adjacentTemplate [AString (utf16 ''x''), ANull]
     = Inr (firstSlotDoc [],
            \<lparr>fragment = 0,
             instanceSlots = [NodeSlot None (Some 3), NodeSlot (Some 2) (Some 4)],
             nodeSlots = [NodeSlot None (Some 3), NodeSlot (Some 2) (Some 4)],
             attrValueSlots = []\<rparr>)"
  by (simp add: run_defs adjacentTemplate_def firstSlotDoc_def emptyDocument_def
      utf16_def replacement_def Let_def)

lemma second_slot_string:
  "updateNodeSlot (secondSlotDoc [Node 5 (Text (utf16 ''x'')) []]) (Some 2) (Some 4) (AString (utf16 ''y''))
     = Inr (secondSlotDoc [Node 5 (Text (utf16 ''x'')) [], Node 6 (Text (utf16 ''y'')) []])"
  "updateNodeSlot (secondSlotDoc [Node 5 (Text (utf16 ''x'')) [], Node 6 (Text (utf16 ''y'')) []])
       (Some 2) (Some 4) (AString (utf16 ''y''))
     = Inr (secondSlotDoc [Node 5 (Text (utf16 ''x'')) [], Node 6 (Text (utf16 ''y'')) [],
                           Node 7 (Text (utf16 ''y'')) []])"
  "collectChildNodes (secondSlotDoc [Node 5 (Text (utf16 ''x'')) [], Node 6 (Text (utf16 ''y'')) []])
       (Some 2) (Some 4) = Inr []"
  "childNodes (secondSlotDoc [Node 5 (Text (utf16 ''x'')) [], Node 6 (Text (utf16 ''y'')) []]) 1
     = [3, 5, 6, 4]"
  "childNodes (secondSlotDoc [Node 5 (Text (utf16 ''x'')) [], Node 6 (Text (utf16 ''y'')) [],
                           Node 7 (Text (utf16 ''y'')) []]) 1 = [3, 5, 6, 7, 4]"
  by (simp_all add: run_defs secondSlotDoc_def utf16_def replacement_def Let_def)

lemma first_slot_string:
  "updateNodeSlot (firstSlotDoc []) None (Some 3) (AString (utf16 ''y''))
     = Inr (firstSlotDoc [Node 5 (Text (utf16 ''y'')) []])"
  "collectChildNodes (firstSlotDoc [Node 5 (Text (utf16 ''y'')) []]) None (Some 3) = Inr []"
  "updateNodeSlot (firstSlotDoc [Node 5 (Text (utf16 ''y'')) []]) None (Some 3) (AString (utf16 ''y''))
     = Inr (firstSlotDoc [Node 5 (Text (utf16 ''y'')) [], Node 6 (Text (utf16 ''y'')) []])"
  "childNodes (firstSlotDoc [Node 5 (Text (utf16 ''y'')) []]) 1 = [2, 4]"
  by (simp_all add: run_defs firstSlotDoc_def utf16_def replacement_def Let_def)

lemma regionDoc_anchored: "anchored (regionDoc [Node 3 (Text (utf16 ''b'')) []] []) (Some 2) 4"
  by (simp add: anchored_def wfDoc_def regionDoc_def parentNode_def parentOf_def precedingSiblings_def)

lemma regionDoc_node:
  "collectChildNodes (regionDoc [Node 3 (Text (utf16 ''b'')) []] []) (Some 2) (Some 4) = Inr [3]"
  "updateNodeSlot (regionDoc [Node 3 (Text (utf16 ''b'')) []] []) (Some 2) (Some 4) (ANode 2)
     = Inr (regionDoc [] [Node 3 (Text (utf16 ''b'')) []])"
  "updateNodeSlot (regionDoc [Node 3 (Text (utf16 ''b'')) []] []) (Some 2) (Some 4) (ANode 4)
     = Inr (regionDoc [] [Node 3 (Text (utf16 ''b'')) []])"
  "collectChildNodes (regionDoc [] [Node 3 (Text (utf16 ''b'')) []]) (Some 2) (Some 4) = Inr []"
  "updateNodeSlot (regionDoc [Node 3 (Text (utf16 ''b'')) []] []) (Some 2) (Some 4) (ANode 1)
     = Inl HierarchyRequestError"
  by (simp_all add: run_defs regionDoc_def utf16_def Let_def)

lemma regionDoc_insert:
  "snd (createTextNode (regionDoc [Node 3 (Text (utf16 ''b'')) []] []) (utf16 ''n'')) = 5"
  "before (fst (createTextNode (regionDoc [Node 3 (Text (utf16 ''b'')) []] []) (utf16 ''n'')))
       4 5
     = Inr (regionDoc [Node 3 (Text (utf16 ''b'')) [], Node 5 (Text (utf16 ''n'')) []] [])"
  "collectChildNodes
       (regionDoc [Node 3 (Text (utf16 ''b'')) [], Node 5 (Text (utf16 ''n'')) []] [])
       (Some 2) (Some 4) = Inr [3, 5]"
  "updateNodeSlot
       (regionDoc [Node 3 (Text (utf16 ''b'')) [], Node 5 (Text (utf16 ''n'')) []] [])
       (Some 2) (Some 4) (ANode 1)
     = Inl HierarchyRequestError"
  by (simp_all add: run_defs regionDoc_def utf16_def Let_def)

lemma second_slot_node:
  "createTextNode (secondSlotDoc [Node 5 (Text (utf16 ''x'')) []]) (utf16 ''n'')
     = (secondSlotDoc [Node 5 (Text (utf16 ''x'')) []]
          \<lparr>roots := roots (secondSlotDoc [Node 5 (Text (utf16 ''x'')) []])
                      @ [Node 6 (Text (utf16 ''n'')) []], nextId := 7\<rparr>, 6)"
  "updateNodeSlot
     (secondSlotDoc [Node 5 (Text (utf16 ''x'')) []]
          \<lparr>roots := roots (secondSlotDoc [Node 5 (Text (utf16 ''x'')) []])
                      @ [Node 6 (Text (utf16 ''n'')) []], nextId := 7\<rparr>)
     (Some 2) (Some 4) (ANode 6)
     = Inr (secondSlotDoc [Node 5 (Text (utf16 ''x'')) [], Node 6 (Text (utf16 ''n'')) []])"
  "collectChildNodes (secondSlotDoc [Node 5 (Text (utf16 ''x'')) [], Node 6 (Text (utf16 ''n'')) []])
       (Some 2) (Some 4) = Inr []"
  "childNodes (secondSlotDoc [Node 5 (Text (utf16 ''x'')) [], Node 6 (Text (utf16 ''n'')) []]) 1
     = [3, 5, 6, 4]"
  "before
     (secondSlotDoc [Node 5 (Text (utf16 ''x'')) []]
          \<lparr>roots := roots (secondSlotDoc [Node 5 (Text (utf16 ''x'')) []])
                      @ [Node 6 (Text (utf16 ''n'')) []], nextId := 7\<rparr>) 4 6
     = Inr (secondSlotDoc [Node 5 (Text (utf16 ''x'')) [], Node 6 (Text (utf16 ''n'')) []])"
  "updateNodeSlot (secondSlotDoc [Node 5 (Text (utf16 ''x'')) [], Node 6 (Text (utf16 ''n'')) []])
       (Some 2) (Some 4) ANull
     = Inr (secondSlotDoc [Node 5 (Text (utf16 ''x'')) [], Node 6 (Text (utf16 ''n'')) []])"
  "parentNode (secondSlotDoc [Node 5 (Text (utf16 ''x'')) [], Node 6 (Text (utf16 ''n'')) []]) 6
     = Some 1"
  by (simp_all add: run_defs secondSlotDoc_def utf16_def replacement_def Let_def)

text \<open>A boundary of the anchor as the argument: the after-boundary, which stays where it
  is, and the before-boundary, which goes before the after-boundary. Either way the
  update returns, the anchor stays in place and the region is removed.\<close>

lemma update_node_after:
  assumes "anchored d sa eb"
  shows "\<exists>d'. updateNodeSlot d sa (Some eb) (ANode eb) = Inr d' \<and> anchored d' sa eb
     \<and> collectChildNodes d' sa (Some eb) = Inr []
     \<and> (\<forall>x\<in>set (between sa eb (siblingIds d eb)). parentNode d' x = None)"
proof -
  define K where "K = siblingIds d eb"
  define R where "R = between sa eb K"
  note rf = region_facts[OF assms(1), folded K_def, folded R_def]
  note cb = collect_between[OF assms(1), folded K_def, folded R_def]
  from anchoredD[OF assms(1)] obtain p where w: "wfDoc d" and p: "parentOf eb (roots d) = Some p"
    by blast
  have dist: "distinct (ids (roots d))" using w by (simp add: wfDoc_def)
  have pin: "p \<in> set (preorder (roots d))" and "eb \<in> nid ` set (kids p)"
    using parentOf_in[OF p] by auto
  from sibling_findNode[OF dist p this(2)] obtain y where
    y: "y \<in> set (kids p)" "nid y = eb" "findNode eb (roots d) = Some y" by blast
  have "nid p \<notin> set (ids [y])" by (rule parent_not_under_child[OF dist pin y(1)])
  then have np: "nid p \<notin> nid ` set (preorder [y])" by (simp add: ids_def)
  have b: "before d eb eb = Inr d" using np by (simp add: before_def p y(3))
  define d' where "d' = removeOthers d R (Some eb)"
  have u: "updateNodeSlot d sa (Some eb) (ANode eb) = Inr d'"
    using rf(3) by (simp add: updateNodeSlot_def cb b d'_def)
  from removeOthers_region[OF assms(1) rf(1) _ rf(3), of "Some eb"] rf(2,4)
  have a: "anchored d' sa eb"
    and k: "siblingIds d' eb = filter (\<lambda>i. i \<notin> set R \<or> Some i = Some eb) K"
    and pp: "\<forall>x\<in>set R. Some x \<noteq> Some eb \<longrightarrow> parentNode d' x = None"
    by (auto simp: d'_def K_def)
  have eq: "between sa eb (siblingIds d' eb) = filter (\<lambda>i. i \<notin> set R \<or> Some i = Some eb) R"
    unfolding k R_def
    using rf(3,4) by (subst between_filter) (auto simp: R_def)
  have c: "collectChildNodes d' sa (Some eb) = Inr []"
    by (simp only: collect_between[OF a] eq filter_keep_none(1)[OF rf(3)])
  have "\<forall>x\<in>set R. parentNode d' x = None" using pp rf(3) by auto
  with u a c show ?thesis by (auto simp: R_def K_def)
qed

lemma update_node_before:
  assumes "anchored d (Some s) eb"
  shows "\<exists>d'. updateNodeSlot d (Some s) (Some eb) (ANode s) = Inr d' \<and> anchored d' (Some s) eb
     \<and> (\<forall>x\<in>set (between (Some s) eb (siblingIds d eb)). parentNode d' x = None)"
proof -
  define K where "K = siblingIds d eb"
  define R where "R = between (Some s) eb K"
  note rf = region_facts[OF assms(1), folded K_def, folded R_def]
  note cb = collect_between[OF assms(1), folded K_def, folded R_def]
  from anchoredD[OF assms(1)] obtain p where w: "wfDoc d" and p: "parentOf eb (roots d) = Some p"
    by blast
  have dist: "distinct (ids (roots d))" using w by (simp add: wfDoc_def)
  have ebK: "eb \<in> set K" using anchoredD(4)[OF assms(1)] by (simp add: K_def)
  have sT: "s \<in> set (takeWhile (\<lambda>i. i \<noteq> eb) K)"
    using anchoredD(5)[OF assms(1)] by (simp add: K_def)
  then have sK: "s \<in> set K" and se: "s \<noteq> eb" by (auto dest: set_takeWhileD)
  have sR: "s \<notin> set R" using rf(4) by simp
  have pin: "p \<in> set (preorder (roots d))" using parentOf_in[OF p] by simp
  have "s \<in> nid ` set (kids p)" using sK by (simp add: K_def siblingIds_parent[OF p])
  from sibling_findNode[OF dist p this] obtain y where
    y: "y \<in> set (kids p)" "nid y = s" "findNode s (roots d) = Some y" by blast
  have yin: "y \<in> set (preorder (roots d))" using child_preorder[OF pin y(1)] .
  have np: "nid p \<notin> set (ids [y])" by (rule parent_not_under_child[OF dist pin y(1)])
  have "\<exists>d1. before d eb s = Inr d1 \<and> anchored d1 (Some s) eb
      \<and> set R \<subseteq> set (siblingIds d1 eb)"
  proof (cases "nkind y = DocumentFragment")
    case nf: False
    from before_move[OF w p y(3) np se nf] obtain d1 where
      b: "before d eb s = Inr d1" and w1: "wfDoc d1"
      and sib: "\<forall>e. e \<in> set (siblingIds d eb) \<and> e \<noteq> s \<longrightarrow>
         (\<exists>p'. parentOf e (roots d1) = Some p' \<and> nid p' = nid p)
         \<and> siblingIds d1 e = insertBefore eb [s] (filter (\<lambda>i. i \<noteq> s) (siblingIds d eb))"
      by auto
    define K0 where "K0 = filter (\<lambda>i. i \<noteq> s) K"
    from sib ebK se obtain p1 where p1: "parentOf eb (roots d1) = Some p1"
      and k1: "siblingIds d1 eb = insertBefore eb [s] K0" by (auto simp: K_def K0_def)
    have eb0: "eb \<in> set K0" using ebK se by (simp add: K0_def)
    have a1: "anchored d1 (Some s) eb"
    proof (rule anchoredI[OF w1 p1])
      fix s' assume "Some s = Some s'"
      then show "s' \<in> set (takeWhile (\<lambda>i. i \<noteq> eb) (siblingIds d1 eb))"
        using eb0 se by (simp add: k1 takeWhile_insertBefore_same)
    qed
    have "set R \<subseteq> set (siblingIds d1 eb)"
      using rf(2) sR by (auto simp: k1 K0_def set_insertBefore)
    with b a1 show ?thesis by blast
  next
    case fr: True
    from before_fragment[OF w p y(3) np se fr] obtain d1 where
      b: "before d eb s = Inr d1" and w1: "wfDoc d1"
      and sib: "\<forall>e. e \<in> set (siblingIds d eb) \<and> e \<noteq> s \<longrightarrow>
         (\<exists>p'. parentOf e (roots d1) = Some p' \<and> nid p' = nid p)
         \<and> siblingIds d1 e = insertBefore eb (map nid (kids y)) (siblingIds d eb)"
      by auto
    have "eb \<in> set (siblingIds d eb) \<and> eb \<noteq> s" using ebK se by (simp add: K_def)
    with sib obtain p1 where p1: "parentOf eb (roots d1) = Some p1"
      and k1: "siblingIds d1 eb = insertBefore eb (map nid (kids y)) K"
      unfolding K_def by blast
    have "set (map nid (kids y)) \<inter> set (map nid (kids p)) = {}"
      by (rule kids_disjoint[OF dist p yin np])
    moreover have "eb \<in> set (map nid (kids p))" using parentOf_in[OF p] by simp
    ultimately have em: "eb \<notin> set (map nid (kids y))" by blast
    have tw: "takeWhile (\<lambda>i. i \<noteq> eb) (insertBefore eb (map nid (kids y)) K)
        = takeWhile (\<lambda>i. i \<noteq> eb) K @ map nid (kids y)"
      by (rule takeWhile_insertBefore_same[OF ebK em])
    have a1: "anchored d1 (Some s) eb"
    proof (rule anchoredI[OF w1 p1])
      fix s' assume "Some s = Some s'"
      then have "s' = s" by simp
      then show "s' \<in> set (takeWhile (\<lambda>i. i \<noteq> eb) (siblingIds d1 eb))"
        unfolding k1 tw using sT by simp
    qed
    have "set K \<subseteq> set (insertBefore eb (map nid (kids y)) K)"
      unfolding set_insertBefore by blast
    then have "set R \<subseteq> set (siblingIds d1 eb)"
      using rf(2) unfolding k1 by blast
    with b a1 show ?thesis by blast
  qed
  then obtain d1 where b: "before d eb s = Inr d1" and a1: "anchored d1 (Some s) eb"
    and sub1: "set R \<subseteq> set (siblingIds d1 eb)" by blast
  define d' where "d' = removeOthers d1 R (Some s)"
  have u: "updateNodeSlot d (Some s) (Some eb) (ANode s) = Inr d'"
    using sR by (simp add: updateNodeSlot_def cb b d'_def)
  from removeOthers_region[OF a1 rf(1) sub1 rf(3), of "Some s"] sR
  have a: "anchored d' (Some s) eb"
    and pp: "\<forall>x\<in>set R. Some x \<noteq> Some s \<longrightarrow> parentNode d' x = None"
    by (auto simp: d'_def)
  have "\<forall>x\<in>set R. parentNode d' x = None" using pp sR by auto
  with u a show ?thesis by (auto simp: R_def K_def)
qed

lemma update_node_removes:
  assumes "anchored d sa eb" "findNode n (roots d) = Some y" "eb \<notin> set (ids (kids y))"
  shows "\<exists>d'. updateNodeSlot d sa (Some eb) (ANode n) = Inr d' \<and> anchored d' sa eb
     \<and> (\<forall>x\<in>set (between sa eb (siblingIds d eb)). x \<noteq> n \<longrightarrow> parentNode d' x = None)"
proof -
  have ny: "nid y = n" using assms(2) by (auto dest: findNode_nid)
  consider "n = eb" | "sa = Some n" | "n \<noteq> eb" "sa \<noteq> Some n" by blast
  then show ?thesis
  proof cases
    case 1
    then show ?thesis using update_node_after[OF assms(1)] by blast
  next
    case 2
    then show ?thesis using update_node_before[of d n eb] assms(1) by blast
  next
    case 3
    have "eb \<notin> set (ids [y])" using assms(3) 3(1) ny by (cases y) auto
    from update_node[OF assms(1,2) this 3(2)] show ?thesis by blast
  qed
qed





text \<open>External code puts a node \<open>m\<close> into the region, before a node of the region or
  before the after-boundary.\<close>

lemma external_insert:
  assumes "anchored d sa eb" "r \<in> set (between sa eb (siblingIds d eb)) \<or> r = eb"
    "findNode m (roots d) = Some y" "eb \<notin> set (ids [y])" "sa \<noteq> Some m" "m \<noteq> r"
    "nkind y \<noteq> DocumentFragment"
  shows "\<exists>d2. before d r m = Inr d2 \<and> anchored d2 sa eb
     \<and> m \<in> set (between sa eb (siblingIds d2 eb))
     \<and> set (between sa eb (siblingIds d eb)) \<subseteq> set (between sa eb (siblingIds d2 eb))"
proof -
  define K where "K = siblingIds d eb"
  define R where "R = between sa eb K"
  note rf = region_facts[OF assms(1), folded K_def, folded R_def]
  from anchoredD[OF assms(1)] obtain p where w: "wfDoc d" and p: "parentOf eb (roots d) = Some p"
    by blast
  have dist: "distinct (ids (roots d))" using w by (simp add: wfDoc_def)
  have ebK: "eb \<in> set K" using anchoredD(4)[OF assms(1)] by (simp add: K_def)
  have sK: "\<And>s. sa = Some s \<Longrightarrow> s \<in> set (takeWhile (\<lambda>i. i \<noteq> eb) K)"
    using anchoredD(5)[OF assms(1)] by (simp add: K_def)
  have yin: "y \<in> set (preorder (roots d))" and ny: "nid y = m"
    using assms(3) by (auto dest: findNode_in findNode_nid)
  have ne: "m \<noteq> eb" using assms(4) ny by (cases y) auto
  have np: "nid p \<notin> set (ids [y])"
    using parent_in_subtree[OF dist p yin] assms(4) by blast
  have rK: "r \<in> set K" using assms(2) rf(2) ebK by (auto simp: R_def K_def)
  then have "r \<in> nid ` set (kids p)" by (simp add: K_def siblingIds_parent[OF p])
  from sibling_findNode[OF dist p this] have pr: "parentOf r (roots d) = Some p" by blast
  have kr: "siblingIds d r = K" by (simp add: siblingIds_def pr p K_def)
  from before_move[OF w pr assms(3) np assms(6,7)] obtain d2 where
    b: "before d r m = Inr d2" and w2: "wfDoc d2"
    and sib: "\<forall>e. e \<in> set (siblingIds d r) \<and> e \<noteq> m \<longrightarrow>
         (\<exists>p'. parentOf e (roots d2) = Some p' \<and> nid p' = nid p)
         \<and> siblingIds d2 e = insertBefore r [m] (filter (\<lambda>i. i \<noteq> m) (siblingIds d r))"
    by auto
  define K0 where "K0 = filter (\<lambda>i. i \<noteq> m) K"
  from sib ebK ne kr obtain p2 where p2: "parentOf eb (roots d2) = Some p2"
    and k2: "siblingIds d2 eb = insertBefore r [m] K0" by (auto simp: K0_def)
  have sn: "\<And>s. sa = Some s \<Longrightarrow> s \<noteq> m" using assms(5) by auto
  have eb0: "eb \<in> set K0" using ebK ne by (simp add: K0_def)
  have s0: "\<And>s. sa = Some s \<Longrightarrow> s \<in> set (takeWhile (\<lambda>i. i \<noteq> eb) K0)"
    using sK sn ne by (auto simp: K0_def takeWhile_filter)
  have r0: "between sa eb K0 = filter (\<lambda>i. i \<noteq> m) R"
    unfolding K0_def R_def using ne sn by (intro between_filter) auto
  have rs: "\<And>s. sa = Some s \<Longrightarrow> r \<noteq> s"
    using assms(2) rf(4) s0 by (auto simp: R_def K_def dest: set_takeWhileD)
  have tw: "set (takeWhile (\<lambda>i. i \<noteq> eb) K0)
              \<subseteq> set (takeWhile (\<lambda>i. i \<noteq> eb) (insertBefore r [m] K0))"
  proof (cases "r = eb")
    case True
    then show ?thesis using eb0 ne by (auto simp: takeWhile_insertBefore_same)
  next
    case False
    then show ?thesis using ne by (auto simp: takeWhile_insertBefore_other set_insertBefore)
  qed
  have a2: "anchored d2 sa eb"
  proof (rule anchoredI[OF w2 p2])
    fix s' assume "sa = Some s'"
    then show "s' \<in> set (takeWhile (\<lambda>i. i \<noteq> eb) (siblingIds d2 eb))"
      using s0 tw by (auto simp: k2)
  qed
  have b2: "between sa eb (siblingIds d2 eb)
            = (if r = eb then filter (\<lambda>i. i \<noteq> m) R @ [m]
               else insertBefore r [m] (filter (\<lambda>i. i \<noteq> m) R))"
  proof (cases "r = eb")
    case True
    have "between sa eb (insertBefore eb [m] K0) = between sa eb K0 @ [m]"
      using eb0 ne s0 sn by (intro between_insertBefore_end) auto
    then show ?thesis using True by (simp add: k2 r0)
  next
    case False
    have "between sa eb (insertBefore r [m] K0) = insertBefore r [m] (between sa eb K0)"
      using False ne rs sn by (intro between_insertBefore_other) auto
    then show ?thesis using False by (simp add: k2 r0)
  qed
  have rR: "r \<noteq> eb \<Longrightarrow> r \<in> set (filter (\<lambda>i. i \<noteq> m) R)"
    using assms(2,6) by (auto simp: R_def K_def)
  have m2: "m \<in> set (between sa eb (siblingIds d2 eb))"
    using rR by (auto simp: b2 set_insertBefore)
  have "set R \<subseteq> set (between sa eb (siblingIds d2 eb))"
    using rR by (auto simp: b2 set_insertBefore)
  with b a2 m2 show ?thesis by (auto simp: R_def K_def)
qed



lemma exampleDoc2_facts:
  "anchored exampleDoc2 None 3"
  "collectChildNodes exampleDoc2 None (Some 3) = Inr [2]"
  "findNode 4 (roots exampleDoc2) = Some (Node 4 (Element HTML (utf16 ''b'') []) [])"
  "3 \<notin> set (ids [Node 4 (Element HTML (utf16 ''b'') []) []])"
  "nkind (Node 4 (Element HTML (utf16 ''b'') []) []) \<noteq> DocumentFragment"
  by (simp_all add: anchored_def wfDoc_def exampleDoc2_def parentNode_def
      collectChildNodes_def precedingSiblings_def)





section \<open>The compiler's walk\<close>

text \<open>
  The walk of \<^verbatim>\<open>createTemplate\<close> ends without an exception on every parsed template, and
  every slot it pushes keeps resolving to the node it was recorded for; a node slot is
  recorded for a node that has a next sibling, and later splits do not take it away.
\<close>


lemma leafy_simps [simp]:
  "leafy []"
  "leafy (Node i k cs # xs) \<longleftrightarrow> ((\<forall>s. k = Text s \<longrightarrow> cs = []) \<and> leafy cs \<and> leafy xs)"
  "leafy (xs @ ys) \<longleftrightarrow> leafy xs \<and> leafy ys"
  by (auto simp: leafy_def preorder_append)

lemma textAt_simps [simp]:
  "textAt t []"
  "textAt t (Node i k cs # xs) \<longleftrightarrow> ((i = t \<longrightarrow> (\<exists>s. k = Text s)) \<and> textAt t cs \<and> textAt t xs)"
  by (auto simp: textAt_def)

lemma upt_split: "a \<le> b \<Longrightarrow> b \<le> c \<Longrightarrow> [a..<c] = [a..<b] @ [b..<(c::nat)]"
  by (metis le_Suc_ex upt_add_eq_append)

lemma label_ids:
  "label c hs = (ns, c') \<Longrightarrow> ids ns = [c..<c'] \<and> c \<le> c' \<and> leafy ns"
proof (induction c hs arbitrary: ns c' rule: label.induct)
  case (1 c)
  then show ?case by simp
next
  case (2 c sp tag as hs rest)
  obtain cs c1 where l1: "label (Suc c) hs = (cs, c1)" by (cases "label (Suc c) hs")
  obtain xs c2 where l2: "label c1 rest = (xs, c2)" by (cases "label c1 rest")
  from "2.prems" l1 l2 have ns: "ns = Node c (Element sp tag as) cs # xs" and c': "c' = c2" by auto
  from "2.IH"(1)[OF l1] have i1: "ids cs = [Suc c..<c1]" "Suc c \<le> c1" "leafy cs" by auto
  from "2.IH"(2)[OF l1[symmetric] refl l2] have i2: "ids xs = [c1..<c2]" "c1 \<le> c2" "leafy xs" by auto
  have "[c..<c2] = c # [Suc c..<c2]" using i1(2) i2(2) by (simp add: upt_conv_Cons)
  then have "[c..<c2] = c # [Suc c..<c1] @ [c1..<c2]"
    using upt_split[OF i1(2) i2(2)] by simp
  then show ?case using ns c' i1 i2 by simp
next
  case (3 c s rest)
  obtain xs c2 where l2: "label (Suc c) rest = (xs, c2)" by (cases "label (Suc c) rest")
  from "3.prems" l2 have ns: "ns = Node c (Text s) [] # xs" and c': "c' = c2" by auto
  from "3.IH"[OF l2] have i2: "ids xs = [Suc c..<c2]" "Suc c \<le> c2" "leafy xs" by auto
  have "[c..<c2] = c # [Suc c..<c2]" using i2(2) by (simp add: upt_conv_Cons)
  then show ?case using ns c' i2 by simp
next
  case (4 c s rest)
  obtain xs c2 where l2: "label (Suc c) rest = (xs, c2)" by (cases "label (Suc c) rest")
  from "4.prems" l2 have ns: "ns = Node c (Comment s) [] # xs" and c': "c' = c2" by auto
  from "4.IH"[OF l2] have i2: "ids xs = [Suc c..<c2]" "Suc c \<le> c2" "leafy xs" by auto
  have "[c..<c2] = c # [Suc c..<c2]" using i2(2) by (simp add: upt_conv_Cons)
  then show ?case using ns c' i2 by simp
qed

lemma entries_splitIn:
  "leafy f \<Longrightarrow> entries (splitIn t off c f) = concat (map (splitEntry t off c) (entries f))"
proof (induction f rule: preorder.induct)
  case 1
  then show ?case by simp
next
  case (2 i k cs xs)
  then show ?case by (cases k) auto
qed

lemma splitEntry_other: "t \<notin> fst ` set es \<Longrightarrow> concat (map (splitEntry t off c) es) = es"
proof (induction es)
  case Nil
  then show ?case by simp
next
  case (Cons e es)
  obtain i k where e: "e = (i, k)" by (cases e)
  show ?case using Cons e by (cases k) auto
qed

lemma leafy_splitIn: "leafy f \<Longrightarrow> leafy (splitIn t off c f)"
proof (induction f rule: preorder.induct)
  case 1
  then show ?case by simp
next
  case (2 i k cs xs)
  then show ?case by (cases k) auto
qed

lemma insertAfter_simps [simp]:
  "insertAfter t c [] = []"
  "insertAfter t c (a # K) = (if a = t then [a, c] else [a]) @ insertAfter t c K"
  by (simp_all add: insertAfter_def)

lemma map_nid_splitIn:
  "textAt t f \<Longrightarrow> map nid (splitIn t off c f) = insertAfter t c (map nid f)"
proof (induction f rule: preorder.induct)
  case 1
  then show ?case by simp
next
  case (2 i k cs xs)
  then show ?case by (cases k) auto
qed

lemma set_nid_splitIn: "e \<noteq> c \<Longrightarrow> e \<in> nid ` set (splitIn t off c f) \<longleftrightarrow> e \<in> nid ` set f"
proof (induction f rule: preorder.induct)
  case 1
  then show ?case by simp
next
  case (2 i k cs xs)
  then show ?case by (cases k) auto
qed

lemma parentOf_splitIn:
  "e \<noteq> c \<Longrightarrow> parentOf e (splitIn t off c f) = map_option (splitNode t off c) (parentOf e f)"
proof (induction f rule: preorder.induct)
  case 1
  then show ?case by simp
next
  case (2 i k cs xs)
  note m = set_nid_splitIn[OF "2.prems", of t off cs]
  show ?case
    using "2.IH"[OF "2.prems"] m
    by (cases k) (auto simp: splitNode_def split: option.splits)
qed

lemma kids_splitNode: "kids (splitNode t off c y) = splitIn t off c (kids y)"
  by (simp add: splitNode_def)

lemma textAt_sub: "textAt t f \<Longrightarrow> y \<in> set (preorder f) \<Longrightarrow> textAt t (kids y)"
  using kids_preorder[of y f] by (auto simp: textAt_def)

lemma textAt_kind:
  assumes "distinct (ids f)" "findNode t f = Some y" "nkind y = Text s"
  shows "textAt t f"
  unfolding textAt_def
proof (intro ballI impI)
  fix x assume "x \<in> set (preorder f)" "nid x = t"
  then have "x = y" using findNode_unique[OF assms(1,2)] by blast
  then show "\<exists>s. nkind x = Text s" using assms(3) by simp
qed

lemma distinct_insertAfter: "distinct K \<Longrightarrow> c \<notin> set K \<Longrightarrow> distinct (insertAfter t c K)"
  by (induction K) (auto simp: insertAfter_def)

lemma set_insertAfter: "set (insertAfter t c K) = set K \<union> (if t \<in> set K then {c} else {})"
  by (induction K) auto

lemma fst_splitEntry: "map fst (splitEntry t off c e) = (if fst e = t \<and> (\<exists>s. snd e = Text s) then [t, c] else [fst e])"
proof -
  obtain i k where e: "e = (i, k)" by (cases e)
  show ?thesis unfolding e by (cases k) auto
qed

lemma pathIn_nav:
  "pathIn s f = Some p
     \<Longrightarrow> \<exists>j q y. p = j # q \<and> j < length f \<and> nav (f ! j) q = Some y \<and> nid y = s"
proof (induction f arbitrary: p rule: preorder.induct)
  case 1
  then show ?case by simp
next
  case (2 i k cs xs)
  show ?case
  proof (cases "i = s")
    case True
    then have "p = [0]" using "2.prems" by simp
    then show ?thesis using True by simp
  next
    case False
    show ?thesis
    proof (cases "pathIn s cs")
      case (Some p')
      then have p: "p = 0 # p'" using "2.prems" False by simp
      from "2.IH"(1)[OF Some] obtain j q y where
        "p' = j # q" "j < length cs" "nav (cs ! j) q = Some y" "nid y = s" by blast
      then have "nav (Node i k cs) p' = Some y" by simp
      then show ?thesis using p \<open>nid y = s\<close> by simp
    next
      case None
      then obtain j q where px: "pathIn s xs = Some (j # q)" and p: "p = Suc j # q"
        using "2.prems" False by (auto split: option.splits list.splits)
      from "2.IH"(2)[OF px] obtain y where
        "j < length xs" "nav (xs ! j) q = Some y" "nid y = s" by auto
      then show ?thesis using p by simp
    qed
  qed
qed

lemma pathIn_Some: "s \<in> set (ids f) \<Longrightarrow> \<exists>p. pathIn s f = Some p"
proof (induction f rule: preorder.induct)
  case 1
  then show ?case by simp
next
  case (2 i k cs xs)
  show ?case
  proof (cases "i = s")
    case True
    then show ?thesis by simp
  next
    case False
    show ?thesis
    proof (cases "pathIn s cs")
      case (Some p')
      then show ?thesis using False by simp
    next
      case None
      then have "s \<notin> set (ids cs)" using "2.IH"(1) by auto
      then have "s \<in> set (ids xs)" using "2.prems" False by simp
      from "2.IH"(2)[OF this] obtain p' where p': "pathIn s xs = Some p'" by blast
      from pathIn_nav[OF p'] obtain j q where "p' = j # q" by blast
      then show ?thesis using False None p' by simp
    qed
  qed
qed

lemma pathIn_ids: "pathIn s f = Some p \<Longrightarrow> s \<in> set (ids f)"
proof (induction f arbitrary: p rule: preorder.induct)
  case 1
  then show ?case by simp
next
  case (2 i k cs xs)
  then show ?case by (auto split: if_splits option.splits list.splits)
qed

lemma pathIn_None: "s \<notin> set (ids f) \<Longrightarrow> pathIn s f = None"
  using pathIn_ids by (cases "pathIn s f") auto

lemma ids_splitIn_mem: "s \<noteq> c \<Longrightarrow> s \<in> set (ids (splitIn t off c f)) \<longleftrightarrow> s \<in> set (ids f)"
proof (induction f rule: preorder.induct)
  case 1
  then show ?case by simp
next
  case (2 i k cs xs)
  then show ?case by (cases k) auto
qed

lemma splitIn_fresh: "t \<notin> set (ids f) \<Longrightarrow> splitIn t off c f = f"
proof (induction f rule: preorder.induct)
  case 1
  then show ?case by simp
next
  case (2 i k cs xs)
  then show ?case by (cases k) auto
qed

lemma pathIn_splitIn:
  "t \<notin> set (takeWhile (\<lambda>i. i \<noteq> s) (ids f)) \<Longrightarrow> s \<noteq> c
     \<Longrightarrow> pathIn s (splitIn t off c f) = pathIn s f"
proof (induction f rule: preorder.induct)
  case 1
  then show ?case by simp
next
  case (2 i k cs xs)
  show ?case
  proof (cases "i = s")
    case True
    then show ?thesis by (cases k) auto
  next
    case False
    then have ti: "t \<noteq> i" and tr: "t \<notin> set (takeWhile (\<lambda>i. i \<noteq> s) (ids cs @ ids xs))"
      using "2.prems"(1) by auto
    have hd: "splitIn t off c (Node i k cs # xs) = Node i k (splitIn t off c cs) # splitIn t off c xs"
      using ti by (cases k) auto
    show ?thesis
    proof (cases "s \<in> set (ids cs)")
      case True
      then have "t \<notin> set (takeWhile (\<lambda>i. i \<noteq> s) (ids cs))"
        using tr by (simp add: takeWhile_append1 split: if_splits)
      from "2.IH"(1)[OF this "2.prems"(2)] have e: "pathIn s (splitIn t off c cs) = pathIn s cs" .
      from pathIn_Some[OF True] obtain p where "pathIn s cs = Some p" by blast
      then show ?thesis unfolding hd using False e by simp
    next
      case nin: False
      have all: "\<forall>x\<in>set (ids cs). x \<noteq> s" using nin by auto
      then have tw: "takeWhile (\<lambda>i. i \<noteq> s) (ids cs @ ids xs)
                  = ids cs @ takeWhile (\<lambda>i. i \<noteq> s) (ids xs)"
        by (simp add: takeWhile_append2)
      then have tc: "t \<notin> set (ids cs)" and tx: "t \<notin> set (takeWhile (\<lambda>i. i \<noteq> s) (ids xs))"
        using tr by auto
      have c1: "splitIn t off c cs = cs" using tc by (rule splitIn_fresh)
      have n1: "pathIn s cs = None" using nin by (rule pathIn_None)
      show ?thesis
        unfolding hd using False n1 c1 "2.IH"(2)[OF tx "2.prems"(2)] by simp
    qed
  qed
qed

lemma templateStateD:
  assumes "templateState d"
  shows "roots d = [Node 0 DocumentFragment (rootKids d)]" and "wfDoc d" and "leafy (roots d)"
    and "distinct (ids (roots d))" and "ids (roots d) = 0 # ids (rootKids d)"
    and "0 \<notin> set (ids (rootKids d))"
proof -
  from assms obtain cs where r: "roots d = [Node 0 DocumentFragment cs]"
    by (auto simp: templateState_def)
  show r': "roots d = [Node 0 DocumentFragment (rootKids d)]" by (simp add: rootKids_def r)
  show "wfDoc d" "leafy (roots d)" using assms by (auto simp: templateState_def)
  then show di: "distinct (ids (roots d))" by (simp add: wfDoc_def)
  show i: "ids (roots d) = 0 # ids (rootKids d)" by (subst r') simp
  show "0 \<notin> set (ids (rootKids d))" using di unfolding i by simp
qed

lemma takeWhile_before:
  assumes "distinct (A @ t # B)" "x \<in> set A \<or> x = t"
  shows "t \<notin> set (takeWhile (\<lambda>i. i \<noteq> x) (A @ t # B))"
proof (cases "x \<in> set A")
  case True
  then have "takeWhile (\<lambda>i. i \<noteq> x) (A @ t # B) = takeWhile (\<lambda>i. i \<noteq> x) A"
    by (simp add: takeWhile_append1)
  then show ?thesis using assms(1) by (auto dest: set_takeWhileD)
next
  case False
  then have x: "x = t" using assms(2) by simp
  have "takeWhile (\<lambda>i. i \<noteq> t) (A @ t # B) = A"
    using assms(1) by (subst takeWhile_append2) auto
  then show ?thesis using assms(1) x by simp
qed

lemma insertAfter_Nil [simp]: "insertAfter t c K = [] \<longleftrightarrow> K = []"
  by (cases K) auto

lemma following_insertAfter:
  "tl (dropWhile (\<lambda>i. i \<noteq> s) K) \<noteq> [] \<Longrightarrow> s \<noteq> c
     \<Longrightarrow> tl (dropWhile (\<lambda>i. i \<noteq> s) (insertAfter t c K)) \<noteq> []"
  by (induction K) (auto split: if_splits)

lemma following_insertAfter_self:
  "t \<in> set K \<Longrightarrow> c \<noteq> t \<Longrightarrow> tl (dropWhile (\<lambda>i. i \<noteq> t) (insertAfter t c K)) \<noteq> []"
  by (induction K) auto

lemma following_insertAfter_twice:
  "t \<in> set K \<Longrightarrow> c1 \<noteq> t \<Longrightarrow> c2 \<noteq> t \<Longrightarrow> c2 \<notin> set K \<Longrightarrow> c2 \<noteq> c1
     \<Longrightarrow> tl (dropWhile (\<lambda>i. i \<noteq> c2) (insertAfter t c2 (insertAfter t c1 K))) \<noteq> []"
  by (induction K) auto

lemma hasNext_ids: "hasNext d s \<longleftrightarrow> tl (dropWhile (\<lambda>i. i \<noteq> s) (siblingIds d s)) \<noteq> []"
  by (simp add: hasNext_def nextSibling_def followingSiblings_ids split: list.splits)

lemma in_kids_has_parent:
  assumes "x \<in> set (ids cs)"
  shows "\<exists>p. parentOf x [Node i k cs] = Some p"
proof -
  from assms obtain z where z: "z \<in> set (preorder cs)" "nid z = x" by (auto simp: ids_def)
  from inner_has_parent[OF z(1)] have "\<exists>q\<in>set (preorder [Node i k cs]). z \<in> set (kids q)"
  proof
    assume "z \<in> set cs"
    then have "z \<in> set (kids (Node i k cs))" by simp
    then show ?thesis by (metis list.set_intros(1) preorder.simps(2))
  next
    assume "\<exists>q\<in>set (preorder cs). z \<in> set (kids q)"
    then show ?thesis by auto
  qed
  then obtain q where q: "q \<in> set (preorder [Node i k cs])" "z \<in> set (kids q)" by blast
  have "x \<in> nid ` set (kids q)" using q(2) z(2) by force
  with q(1) have "\<exists>q\<in>set (preorder [Node i k cs]). x \<in> nid ` set (kids q)" by blast
  then have "parentOf x [Node i k cs] \<noteq> None"
    unfolding parentOf_def find_None_iff by blast
  then show ?thesis by auto
qed

lemma entries_distinct_lookup:
  assumes "distinct (map fst (D @ (t, k) # Rst))"
  shows "map_of (D @ (t, k) # Rst) t = Some k" and "t \<notin> fst ` set D" and "t \<notin> fst ` set Rst"
  using assms by (auto simp: map_of_append map_add_def map_of_eq_None_iff[symmetric] split: option.splits)

text \<open>\<^verbatim>\<open>splitText\<close> on a text node of a template under compilation.\<close>

lemma splitText_template:
  assumes ts: "templateState d"
    and en: "entries (roots d) = D @ (t, Text s) # Rst"
    and off: "off \<le> length s"
  shows "\<exists>d'. splitText d t off = Inr (d', nextId d) \<and> templateState d'
     \<and> nextId d' = Suc (nextId d)
     \<and> entries (roots d') = D @ (t, Text (take off s)) # (nextId d, Text (drop off s)) # Rst
     \<and> (\<forall>x. x \<in> fst ` set D \<or> x = t \<longrightarrow> pathIn x (rootKids d') = pathIn x (rootKids d))
     \<and> (\<forall>e. e \<noteq> nextId d \<longrightarrow> siblingIds d' e = insertAfter t (nextId d) (siblingIds d e))
     \<and> siblingIds d' (nextId d) = insertAfter t (nextId d) (siblingIds d t)
     \<and> t \<in> set (siblingIds d t)"
proof -
  define c where "c = nextId d"
  define f where "f = roots d"
  note td = templateStateD[OF ts]
  have dist: "distinct (ids f)" using td(4) by (simp add: f_def)
  have dm: "distinct (map fst (D @ (t, Text s) # Rst))"
    using dist en by (simp add: ids_entries f_def)
  note lk = entries_distinct_lookup[OF dm]
  have k: "kindOf d t = Some (Text s)" using lk(1) by (simp add: kindOf_entries en)
  define d' where "d' = d\<lparr>roots := splitIn t off c f, nextId := Suc c\<rparr>"
  have st: "splitText d t off = Inr (d', c)"
    using off by (simp add: splitText_def k d'_def c_def f_def)
  have fr: "f = [Node 0 DocumentFragment (rootKids d)]" using td(1) by (simp add: f_def)
  have r': "roots d' = [Node 0 DocumentFragment (splitIn t off c (rootKids d))]"
    by (simp add: d'_def) (subst fr, simp)
  have rk': "rootKids d' = splitIn t off c (rootKids d)" by (simp add: rootKids_def r')
  have lf: "leafy (roots d')" using leafy_splitIn[OF td(3)] by (simp add: d'_def f_def)
  have e': "entries (roots d') = D @ (t, Text (take off s)) # (c, Text (drop off s)) # Rst"
    using entries_splitIn[OF td(3), of t off c] lk(2,3)
    by (simp add: d'_def f_def en splitEntry_other)
  have fresh: "\<forall>i\<in>set (ids f). i < c" using td(2) by (simp add: wfDoc_def f_def c_def)
  have idf: "ids f = map fst D @ t # map fst Rst" using en by (simp add: ids_entries f_def)
  have cf: "c \<notin> set (ids f)" using fresh by auto
  have i': "ids (roots d') = map fst D @ t # c # map fst Rst" using e' by (simp add: ids_entries)
  have sset: "set (ids (roots d')) = insert c (set (ids f))" unfolding i' idf by auto
  have dd: "distinct (ids (roots d'))" using dist cf unfolding i' idf by auto
  have nd: "nextId d' = Suc c" by (simp add: d'_def)
  have w': "wfDoc d'"
    unfolding wfDoc_def nd sset using dd fresh by (auto simp: less_Suc_eq)
  have ts': "templateState d'" using r' w' lf by (simp add: templateState_def)
  have tne: "t \<noteq> c" using cf idf by auto
  have ik: "0 # ids (rootKids d) = map fst D @ t # map fst Rst"
    using td(5) idf by (simp add: f_def)
  have pth: "pathIn x (rootKids d') = pathIn x (rootKids d)" if x: "x \<in> fst ` set D \<or> x = t" for x
  proof (cases "x \<in> set (ids (rootKids d))")
    case False
    have xc: "x \<noteq> c" using x cf idf by auto
    then have "x \<notin> set (ids (rootKids d'))" using False by (simp add: rk' ids_splitIn_mem)
    then show ?thesis using False by (simp add: pathIn_None)
  next
    case True
    have xc: "x \<noteq> c" using x cf idf by auto
    have x0: "x \<noteq> 0" using True td(6) by (metis)
    have "t \<notin> set (takeWhile (\<lambda>i. i \<noteq> x) (0 # ids (rootKids d)))"
      unfolding ik using dm x by (intro takeWhile_before) auto
    then have "t \<notin> set (takeWhile (\<lambda>i. i \<noteq> x) (ids (rootKids d)))" using x0 by simp
    from pathIn_splitIn[OF this xc] show ?thesis by (simp add: rk')
  qed
  have ta: "textAt t f"
  proof -
    from k obtain y where "findNode t f = Some y" "nkind y = Text s"
      by (auto simp: kindOf_def f_def)
    then show ?thesis using textAt_kind[OF dist] by blast
  qed
  have sib: "siblingIds d' e = insertAfter t c (siblingIds d e)" if e: "e \<noteq> c" for e
  proof (cases "parentOf e f")
    case None
    then show ?thesis using parentOf_splitIn[OF e, of t off f]
      by (simp add: siblingIds_def d'_def f_def)
  next
    case (Some p)
    have "textAt t (kids p)" using textAt_sub[OF ta] parentOf_in[OF Some] by blast
    then show ?thesis
      using parentOf_splitIn[OF e, of t off f] Some
      by (simp add: siblingIds_def d'_def f_def[symmetric] kids_splitNode map_nid_splitIn)
  qed
  have tin: "t \<in> set (ids (rootKids d))"
  proof -
    have "t \<noteq> 0"
    proof
      assume "t = 0"
      then have "kindOf d 0 = Some (Text s)" using k by simp
      then show False by (simp add: kindOf_def td(1))
    qed
    moreover have "t \<in> set (0 # ids (rootKids d))" unfolding ik by simp
    ultimately show ?thesis by simp
  qed
  from in_kids_has_parent[OF tin, of 0 DocumentFragment] obtain p where
    p: "parentOf t f = Some p" by (subst (asm) fr[symmetric]) blast
  have tK: "t \<in> set (siblingIds d t)"
    using parentOf_in[OF p] by (simp add: siblingIds_def p[unfolded f_def])
  have pt': "parentOf t (roots d') = Some (splitNode t off c p)"
    using parentOf_splitIn[OF tne, of t off f] p by (simp add: d'_def)
  have kt': "siblingIds d' t = insertAfter t c (siblingIds d t)" using sib[OF tne] .
  have "c \<in> set (siblingIds d' t)" using tK by (simp add: kt' set_insertAfter)
  then have "c \<in> nid ` set (kids (splitNode t off c p))"
    by (simp add: siblingIds_def pt')
  from sibling_findNode[OF _ pt' this] w'
  have "parentOf c (roots d') = Some (splitNode t off c p)" by (auto simp: wfDoc_def)
  then have sc: "siblingIds d' c = insertAfter t c (siblingIds d t)"
    using kt' by (simp add: siblingIds_def pt')
  have n': "nextId d' = Suc (nextId d)" by (simp add: d'_def c_def)
  show ?thesis
    using st ts' n' e' pth sib sc tK unfolding c_def[symmetric] by blast
qed

lemma shown_shownK: "shown x = shownK (nkind x)"
  by (cases x; cases "nkind x") auto

lemma pathToNode_pathIn:
  assumes "templateState d" "pathIn s (rootKids d) = Some p"
  shows "pathToNode d 0 s = Some (Inr p)"
proof -
  note td = templateStateD[OF assms(1)]
  define x where "x = Node 0 DocumentFragment (rootKids d)"
  have xin: "x \<in> set (preorder (roots d))" by (subst td(1)) (simp add: x_def)
  from pathIn_nav[OF assms(2)] obtain j q y where
    p: "p = j # q" and j: "j < length (rootKids d)" and n: "nav (rootKids d ! j) q = Some y"
    and s: "nid y = s" by blast
  have "nav x p = Some y" using p j n by (simp add: x_def)
  from pathToNodeLoop_nav[OF td(4) xin this, of "[]"] show ?thesis
    by (simp add: pathToNode_def x_def s)
qed

lemma indexOf_less: "indexOf s pat = Some i \<Longrightarrow> pat \<noteq> [] \<Longrightarrow> i < length s"
proof (induction s arbitrary: i)
  case Nil
  then show ?case by simp
next
  case (Cons a s)
  then show ?case by (auto split: if_splits)
qed

lemma nextNode_template:
  assumes "templateState d" "itRoot it = 0"
  shows "nextNode d it =
     (case find (\<lambda>e. shownK (snd e))
             ((if pointerBeforeReferenceNode it then (\<lambda>xs. xs) else tl)
                (dropWhile (\<lambda>e. fst e \<noteq> referenceNode it) (entries (roots d)))) of
        None \<Rightarrow> (None, it)
      | Some e \<Rightarrow> (Some (fst e), it\<lparr>referenceNode := fst e, pointerBeforeReferenceNode := False\<rparr>))"
proof -
  note td = templateStateD[OF assms(1)]
  define g where "g = (\<lambda>x. (nid x, nkind x))"
  define xs where "xs = preorder (roots d)"
  define r where "r = Node 0 DocumentFragment (rootKids d)"
  have f0: "findNode 0 (roots d) = Some r"
    unfolding r_def by (subst td(1)) simp
  have col: "preorder [r] = xs"
    unfolding xs_def r_def using td(1) by simp
  define cand where "cand = (if pointerBeforeReferenceNode it
      then dropWhile (\<lambda>x. nid x \<noteq> referenceNode it) xs
      else tl (dropWhile (\<lambda>x. nid x \<noteq> referenceNode it) xs))"
  have nn: "nextNode d it = (case find shown cand of None \<Rightarrow> (None, it)
      | Some x \<Rightarrow> (Some (nid x), it\<lparr>referenceNode := nid x, pointerBeforeReferenceNode := False\<rparr>))"
    unfolding nextNode_def assms(2) f0 cand_def by (simp only: option.case col Let_def)
  have e: "entries (roots d) = map g xs" by (simp add: entries_def g_def xs_def)
  have dw: "dropWhile (\<lambda>e. fst e \<noteq> q) (map g ys) = map g (dropWhile (\<lambda>x. nid x \<noteq> q) ys)" for q ys
    by (simp add: dropWhile_map g_def comp_def)
  have fm: "find (\<lambda>e. shownK (snd e)) (map g ys) = map_option g (find shown ys)" for ys
    by (induction ys) (auto simp: g_def shown_shownK)
  have c: "(if pointerBeforeReferenceNode it then (\<lambda>xs. xs) else tl)
                (dropWhile (\<lambda>e. fst e \<noteq> referenceNode it) (entries (roots d))) = map g cand"
    unfolding e dw cand_def by (simp add: map_tl)
  show ?thesis unfolding nn c fm
    by (cases "find shown cand") (simp_all add: g_def)
qed

lemma recorded_mono: "recorded d B slot \<Longrightarrow> B \<subseteq> B' \<Longrightarrow> recorded d B' slot"
  by (auto simp: recorded_def)

lemma recorded_stable:
  assumes "recorded d B slot" "B \<subseteq> fst ` set D \<union> {t}" "c \<notin> B"
    "\<forall>x. x \<in> fst ` set D \<or> x = t \<longrightarrow> pathIn x (rootKids d') = pathIn x (rootKids d)"
    "\<forall>e. e \<noteq> c \<longrightarrow> siblingIds d' e = insertAfter t c (siblingIds d e)"
  shows "recorded d' B slot"
proof -
  from assms(1) obtain s where s: "s \<in> B" "pathIn s (rootKids d) = Some (slotPath slot)"
    and h: "(case slot of TemplateNodeSlot p \<Rightarrow> hasNext d s | TemplateAttrValueSlot p a \<Rightarrow> True)"
    by (auto simp: recorded_def)
  have "s \<in> fst ` set D \<or> s = t" using s(1) assms(2) by blast
  with assms(4) have "pathIn s (rootKids d') = pathIn s (rootKids d)" by blast
  with s(2) have p: "pathIn s (rootKids d') = Some (slotPath slot)" by simp
  have sc: "s \<noteq> c" using s(1) assms(3) by auto
  have "hasNext d s \<Longrightarrow> hasNext d' s"
    using assms(5) sc by (simp add: hasNext_ids following_insertAfter)
  then have "(case slot of TemplateNodeSlot p \<Rightarrow> hasNext d' s | TemplateAttrValueSlot p a \<Rightarrow> True)"
    using h by (cases slot) auto
  with s(1) p show ?thesis by (auto simp: recorded_def)
qed

lemma siblingIds_sub: "set (siblingIds d e) \<subseteq> set (ids (roots d))"
proof (cases "parentOf e (roots d)")
  case None
  then show ?thesis by (simp add: siblingIds_def)
next
  case (Some p)
  then have "p \<in> set (preorder (roots d))" by (simp add: parentOf_in)
  then have "nid ` set (kids p) \<subseteq> set (ids (roots d))" using child_in_ids by blast
  then show ?thesis using Some by (simp add: siblingIds_def)
qed

lemma template_entries_root:
  assumes "templateState d"
  shows "entries (roots d) = (0, DocumentFragment) # entries (rootKids d)"
  by (subst templateStateD(1)[OF assms]) (simp add: entries_def)

lemma template_nonroot:
  assumes "templateState d" "entries (roots d) = D @ (x, k) # Rst" "k \<noteq> DocumentFragment"
  shows "x \<in> set (ids (rootKids d))" and "x \<noteq> 0"
proof -
  note td = templateStateD[OF assms(1)]
  have di: "distinct (map fst (D @ (x, k) # Rst))"
    using td(4) by (simp add: ids_entries assms(2))
  have "map_of (entries (roots d)) x = Some k"
    unfolding assms(2) by (rule entries_distinct_lookup(1)[OF di])
  moreover have "map_of (entries (roots d)) 0 = Some DocumentFragment"
    by (simp add: template_entries_root[OF assms(1)])
  ultimately show x0: "x \<noteq> 0" using assms(3) by (cases "x = 0") simp_all
  have "x \<in> set (ids (roots d))" by (simp add: ids_entries assms(2))
  then show "x \<in> set (ids (rootKids d))" using x0 by (simp add: td(5))
qed

lemma template_bound: "templateState d \<Longrightarrow> x \<in> set (ids (roots d)) \<Longrightarrow> x < nextId d"
  by (auto simp: templateState_def wfDoc_def)

lemma marker_step:
  assumes ts: "templateState d" and en: "entries (roots d) = D @ (t, Text s) # Rst"
    and rc: "\<forall>slot\<in>set acc. recorded d (fst ` set D) slot"
    and ix: "indexOf s replacement = Some i"
  shows "\<exists>d1 d2 split p D2.
      splitText d t (i + 1) = Inr (d1, nextId d)
    \<and> (if i \<noteq> 0 then splitText d1 t i else Inr (d1, t)) = Inr (d2, split)
    \<and> pathToNode d2 0 split = Some (Inr p)
    \<and> templateState d2
    \<and> entries (roots d2) = (D @ D2) @ (nextId d, Text (drop (i + 1) s)) # Rst
    \<and> (\<forall>slot\<in>set (acc @ [TemplateNodeSlot p]). recorded d2 (fst ` set (D @ D2)) slot)"
proof -
  note td = templateStateD[OF ts]
  define c1 where "c1 = nextId d"
  have il: "i < length s" using indexOf_less[OF ix] by (simp add: replacement_def)
  then have off1: "i + 1 \<le> length s" by simp
  have di: "distinct (map fst (D @ (t, Text s) # Rst))"
    using td(4) by (simp add: ids_entries en)
  have tD: "t \<notin> fst ` set D" by (rule entries_distinct_lookup(2)[OF di])
  have tin: "t \<in> set (ids (roots d))" by (simp add: ids_entries en)
  have Din: "fst ` set D \<subseteq> set (ids (roots d))" by (auto simp: ids_entries en)
  have tc1: "t \<noteq> c1" using template_bound[OF ts tin] by (simp add: c1_def)
  have fresh: "x \<notin> set (ids (roots d))" if "nextId d \<le> x" for x
    using template_bound[OF ts, of x] that by auto
  have c1D: "c1 \<notin> fst ` set D" using fresh[of c1] Din by (auto simp: c1_def)
  from splitText_template[OF ts en off1] obtain d1 where
    s1: "splitText d t (i + 1) = Inr (d1, c1)" and ts1: "templateState d1"
    and n1: "nextId d1 = Suc c1"
    and en1: "entries (roots d1) = D @ (t, Text (take (i + 1) s)) # (c1, Text (drop (i + 1) s)) # Rst"
    and p1: "\<forall>x. x \<in> fst ` set D \<or> x = t \<longrightarrow> pathIn x (rootKids d1) = pathIn x (rootKids d)"
    and sb1: "\<forall>e. e \<noteq> c1 \<longrightarrow> siblingIds d1 e = insertAfter t c1 (siblingIds d e)"
    and tsib: "t \<in> set (siblingIds d t)"
    unfolding c1_def by blast
  have rc1: "\<forall>slot\<in>set acc. recorded d1 (fst ` set D) slot"
  proof
    fix slot assume "slot \<in> set acc"
    then have "recorded d (fst ` set D) slot" using rc by blast
    then show "recorded d1 (fst ` set D) slot"
      by (rule recorded_stable[where D = D and t = t and c = c1]) (use c1D p1 sb1 in auto)
  qed
  show ?thesis
  proof (cases "i = 0")
    case True
    have "t \<in> set (ids (rootKids d1))"
      by (rule template_nonroot(1)[OF ts1 en1]) simp
    then obtain p where p: "pathIn t (rootKids d1) = Some p" using pathIn_Some by blast
    have ptn: "pathToNode d1 0 t = Some (Inr p)" by (rule pathToNode_pathIn[OF ts1 p])
    have "siblingIds d1 t = insertAfter t c1 (siblingIds d t)" using sb1 tc1 by blast
    then have hn: "hasNext d1 t"
      using following_insertAfter_self[OF tsib, of c1] tc1 by (simp add: hasNext_ids)
    define D2 where "D2 = [(t, Text (take (i + 1) s))]"
    have new: "recorded d1 (fst ` set (D @ D2)) (TemplateNodeSlot p)"
      unfolding recorded_def using p hn by (auto simp: D2_def)
    have old: "\<forall>slot\<in>set acc. recorded d1 (fst ` set (D @ D2)) slot"
      using rc1 by (auto intro: recorded_mono)
    have e2: "entries (roots d1) = (D @ D2) @ (nextId d, Text (drop (i + 1) s)) # Rst"
      by (simp add: en1 D2_def c1_def)
    have "(if i \<noteq> 0 then splitText d1 t i else Inr (d1, t)) = Inr (d1, t)" using True by simp
    with s1 ptn ts1 e2 new old show ?thesis unfolding c1_def by (intro exI[of _ d1] exI[of _ t] exI[of _ p] exI[of _ D2]) auto
  next
    case False
    define c2 where "c2 = Suc c1"
    have off2: "i \<le> length (take (i + 1) s)" using il by simp
    from splitText_template[OF ts1 en1 off2] obtain d2 where
      s2: "splitText d1 t i = Inr (d2, c2)" and ts2: "templateState d2"
      and en2: "entries (roots d2) = D @ (t, Text (take i (take (i + 1) s)))
          # (c2, Text (drop i (take (i + 1) s))) # (c1, Text (drop (i + 1) s)) # Rst"
      and p2: "\<forall>x. x \<in> fst ` set D \<or> x = t \<longrightarrow> pathIn x (rootKids d2) = pathIn x (rootKids d1)"
      and sb2: "\<forall>e. e \<noteq> c2 \<longrightarrow> siblingIds d2 e = insertAfter t c2 (siblingIds d1 e)"
      and sc2: "siblingIds d2 c2 = insertAfter t c2 (siblingIds d1 t)"
      unfolding n1 c2_def by blast
    have tc2: "t \<noteq> c2" using template_bound[OF ts tin] by (simp add: c1_def c2_def)
    have c2f: "c2 \<notin> set (ids (roots d))" using fresh[of c2] by (simp add: c1_def c2_def)
    have c2D: "c2 \<notin> fst ` set D" using c2f Din by blast
    have c2s: "c2 \<notin> set (siblingIds d t)"
      using c2f siblingIds_sub[of d t] by blast
    have en2': "entries (roots d2) = (D @ [(t, Text (take i (take (i + 1) s)))])
          @ (c2, Text (drop i (take (i + 1) s))) # (c1, Text (drop (i + 1) s)) # Rst"
      by (simp add: en2)
    have "c2 \<in> set (ids (rootKids d2))"
      by (rule template_nonroot(1)[OF ts2 en2']) simp
    then obtain p where p: "pathIn c2 (rootKids d2) = Some p" using pathIn_Some by blast
    have ptn: "pathToNode d2 0 c2 = Some (Inr p)" by (rule pathToNode_pathIn[OF ts2 p])
    have "siblingIds d2 c2 = insertAfter t c2 (insertAfter t c1 (siblingIds d t))"
      using sc2 sb1 tc1 by simp
    then have hn: "hasNext d2 c2"
      using following_insertAfter_twice[OF tsib, of c1 c2] tc1 tc2 c2s
      by (simp add: hasNext_ids c2_def)
    define D2 where "D2 = [(t, Text (take i (take (i + 1) s))), (c2, Text (drop i (take (i + 1) s)))]"
    have new: "recorded d2 (fst ` set (D @ D2)) (TemplateNodeSlot p)"
      unfolding recorded_def using p hn by (auto simp: D2_def)
    have rc2: "\<forall>slot\<in>set acc. recorded d2 (fst ` set D) slot"
    proof
      fix slot assume "slot \<in> set acc"
      then have "recorded d1 (fst ` set D) slot" using rc1 by blast
      then show "recorded d2 (fst ` set D) slot"
        by (rule recorded_stable[where D = D and t = t and c = c2]) (use c2D p2 sb2 in auto)
    qed
    then have old: "\<forall>slot\<in>set acc. recorded d2 (fst ` set (D @ D2)) slot"
      by (auto intro: recorded_mono)
    have e2: "entries (roots d2) = (D @ D2) @ (nextId d, Text (drop (i + 1) s)) # Rst"
      by (simp add: en2 D2_def c1_def)
    have "(if i \<noteq> 0 then splitText d1 t i else Inr (d1, t)) = Inr (d2, c2)" using False s2 by simp
    with s1 ptn ts2 e2 new old show ?thesis unfolding c1_def
      by (intro exI[of _ d1] exI[of _ d2] exI[of _ c2] exI[of _ p] exI[of _ D2]) auto
  qed
qed

lemma splitMarkers_inv:
  assumes "templateState d" "entries (roots d) = D @ (t, Text s) # Rst"
    "\<forall>slot\<in>set acc. recorded d (fst ` set D) slot"
  shows "\<exists>d' acc' X. splitMarkers d 0 t acc = Some (Inr (d', acc'))
     \<and> templateState d' \<and> entries (roots d') = (D @ X) @ Rst
     \<and> (\<forall>slot\<in>set acc'. recorded d' (fst ` set (D @ X)) slot)"
  using assms
proof (induction "length s" arbitrary: d D t s acc rule: less_induct)
  case less
  note ts = less.prems(1) and en = less.prems(2) and rc = less.prems(3)
  note td = templateStateD[OF ts]
  have di: "distinct (map fst (D @ (t, Text s) # Rst))"
    using td(4) by (simp add: ids_entries en)
  have k: "kindOf d t = Some (Text s)"
    unfolding kindOf_entries en by (rule entries_distinct_lookup(1)[OF di])
  then have dt: "dataOf d t = Some s" by (simp add: dataOf_def)
  show ?case
  proof (cases "indexOf s replacement")
    case None
    have "splitMarkers d 0 t acc = Some (Inr (d, acc))"
      by (subst splitMarkers.simps) (simp add: dt None)
    moreover have "entries (roots d) = (D @ [(t, Text s)]) @ Rst" by (simp add: en)
    moreover have "\<forall>slot\<in>set acc. recorded d (fst ` set (D @ [(t, Text s)])) slot"
      using rc by (auto intro: recorded_mono)
    ultimately show ?thesis using ts by blast
  next
    case (Some i)
    have il: "i < length s" using indexOf_less[OF Some] by (simp add: replacement_def)
    from marker_step[OF ts en rc Some] obtain d1 d2 split p D2 where
      s1: "splitText d t (i + 1) = Inr (d1, nextId d)"
      and s2: "(if i \<noteq> 0 then splitText d1 t i else Inr (d1, t)) = Inr (d2, split)"
      and ptn: "pathToNode d2 0 split = Some (Inr p)"
      and ts2: "templateState d2"
      and en2: "entries (roots d2) = (D @ D2) @ (nextId d, Text (drop (i + 1) s)) # Rst"
      and rc2: "\<forall>slot\<in>set (acc @ [TemplateNodeSlot p]). recorded d2 (fst ` set (D @ D2)) slot"
      by blast
    have lt: "length (drop (i + 1) s) < length s" using il by simp
    from less.hyps[OF lt ts2 en2 rc2] obtain d' acc' X where
      r: "splitMarkers d2 0 (nextId d) (acc @ [TemplateNodeSlot p]) = Some (Inr (d', acc'))"
      and ts': "templateState d'" and en': "entries (roots d') = ((D @ D2) @ X) @ Rst"
      and rc': "\<forall>slot\<in>set acc'. recorded d' (fst ` set ((D @ D2) @ X)) slot"
      by blast
    have "splitMarkers d 0 t acc = Some (Inr (d', acc'))"
      by (subst splitMarkers.simps) (simp only: dt Some option.case s1 sum.case prod.case s2 ptn Option.bind.simps r)
    moreover have "entries (roots d') = (D @ (D2 @ X)) @ Rst" using en' by simp
    moreover have "\<forall>slot\<in>set acc'. recorded d' (fst ` set (D @ (D2 @ X))) slot" using rc' by simp
    ultimately show ?thesis using ts' by blast
  qed
qed

lemma find_split: "find P xs = Some x \<Longrightarrow> \<exists>U V. xs = U @ x # V"
  by (induction xs) (auto split: if_splits intro: Cons_eq_appendI)

lemma attrSlots_inv:
  assumes "templateState d" "pathIn el (rootKids d) = Some p" "el \<in> B"
    "\<forall>slot\<in>set acc. recorded d B slot"
  shows "\<exists>acc'. attrSlots d 0 el as acc = Some (Inr acc') \<and> (\<forall>slot\<in>set acc'. recorded d B slot)"
  using assms(4)
proof (induction as arbitrary: acc)
  case Nil
  then show ?case by simp
next
  case (Cons av as)
  obtain a v where av: "av = (a, v)" by (cases av)
  have ptn: "pathToNode d 0 el = Some (Inr p)" by (rule pathToNode_pathIn[OF assms(1,2)])
  show ?case
  proof (cases "v = replacement")
    case True
    have "recorded d B (TemplateAttrValueSlot p a)"
      unfolding recorded_def using assms(2,3) by auto
    then have "\<forall>slot\<in>set (acc @ [TemplateAttrValueSlot p a]). recorded d B slot"
      using Cons.prems by auto
    from Cons.IH[OF this] show ?thesis by (simp add: av True ptn)
  next
    case False
    from Cons.IH[OF Cons.prems] show ?thesis by (simp add: av False)
  qed
qed

lemma recorded_all:
  assumes "entries (roots d) = D @ Rst" "\<forall>slot\<in>set acc. recorded d (fst ` set D) slot"
  shows "\<forall>slot\<in>set acc. recorded d (set (ids (roots d))) slot"
proof -
  have "fst ` set D \<subseteq> set (ids (roots d))" by (auto simp: ids_entries assms(1))
  then show ?thesis using assms(2) by (auto intro: recorded_mono)
qed

lemma walk_inv:
  assumes "templateState d" "entries (roots d) = D @ (cur, k) # Rst"
    "itRoot it = 0" "referenceNode it = cur" "\<not> pointerBeforeReferenceNode it"
    "\<forall>slot\<in>set acc. recorded d (fst ` set D) slot"
  shows "\<exists>d' acc'. walk d 0 it (Some cur) acc = Some (Inr (d', acc'))
     \<and> templateState d' \<and> (\<forall>slot\<in>set acc'. recorded d' (set (ids (roots d'))) slot)"
  using assms
proof (induction "length Rst" arbitrary: d D cur k Rst it acc rule: less_induct)
  case less
  note ts = less.prems(1) and en = less.prems(2) and it = less.prems(3,4,5) and rc = less.prems(6)
  note td = templateStateD[OF ts]
  have di: "distinct (map fst (D @ (cur, k) # Rst))"
    using td(4) by (simp add: ids_entries en)
  have k: "kindOf d cur = Some k"
    unfolding kindOf_entries en by (rule entries_distinct_lookup(1)[OF di])
  have cD: "cur \<notin> fst ` set D" by (rule entries_distinct_lookup(2)[OF di])
  have dw: "dropWhile (\<lambda>e. fst e \<noteq> cur) (D @ (cur, k) # Rst) = (cur, k) # Rst"
    using cD by (subst dropWhile_append2) auto
  have nn: "nextNode d it = (case find (\<lambda>e. shownK (snd e)) Rst of None \<Rightarrow> (None, it)
      | Some e \<Rightarrow> (Some (fst e), it\<lparr>referenceNode := fst e, pointerBeforeReferenceNode := False\<rparr>))"
    unfolding nextNode_template[OF ts it(1)] it(2) en dw using it(3) by simp
  obtain nxt it' where ni: "nextNode d it = (nxt, it')" by (cases "nextNode d it")
  have cont: "\<exists>d' acc'. walk d1 0 it' nxt acc1 = Some (Inr (d', acc'))
     \<and> templateState d' \<and> (\<forall>slot\<in>set acc'. recorded d' (set (ids (roots d'))) slot)"
    if ts1: "templateState d1" and en1: "entries (roots d1) = D1 @ Rst"
      and rc1: "\<forall>slot\<in>set acc1. recorded d1 (fst ` set D1) slot" for d1 D1 acc1
  proof (cases "find (\<lambda>e. shownK (snd e)) Rst")
    case None
    then have "nxt = None" using nn ni by simp
    then have "walk d1 0 it' nxt acc1 = Some (Inr (d1, acc1))"
      by (subst walk.simps) simp
    with ts1 recorded_all[OF en1 rc1] show ?thesis by blast
  next
    case (Some e)
    obtain m km where e: "e = (m, km)" by (cases e)
    from find_split[OF Some] obtain U V where R: "Rst = U @ (m, km) # V" unfolding e by blast
    have nx: "nxt = Some m" and i': "it' = it\<lparr>referenceNode := m, pointerBeforeReferenceNode := False\<rparr>"
      using nn ni Some e by simp_all
    have lt: "length V < length Rst" by (simp add: R)
    have en1': "entries (roots d1) = (D1 @ U) @ (m, km) # V" by (simp add: en1 R)
    have rc1': "\<forall>slot\<in>set acc1. recorded d1 (fst ` set (D1 @ U)) slot"
      using rc1 by (auto intro: recorded_mono)
    have "itRoot it' = 0" "referenceNode it' = m" "\<not> pointerBeforeReferenceNode it'"
      using it(1) by (simp_all add: i')
    from less.hyps[OF lt ts1 en1' this rc1'] show ?thesis unfolding nx .
  qed
  have mono1: "\<forall>slot\<in>set acc. recorded d (fst ` set (D @ [(cur, k)])) slot"
    using rc by (auto intro: recorded_mono)
  have en0: "entries (roots d) = (D @ [(cur, k)]) @ Rst" by (simp add: en)
  show ?case
  proof (cases k)
    case (Text s)
    from splitMarkers_inv[OF ts en[unfolded Text] rc] obtain d1 acc1 X where
      sm: "splitMarkers d 0 cur acc = Some (Inr (d1, acc1))" and ts1: "templateState d1"
      and en1: "entries (roots d1) = (D @ X) @ Rst"
      and rc1: "\<forall>slot\<in>set acc1. recorded d1 (fst ` set (D @ X)) slot" by blast
    have "walk d 0 it (Some cur) acc = walk d1 0 it' nxt acc1"
      by (subst walk.simps) (simp add: ni k Text sm)
    with cont[OF ts1 en1 rc1] show ?thesis by simp
  next
    case (Element ns tag as)
    have "cur \<in> set (ids (rootKids d))"
      by (rule template_nonroot(1)[OF ts en]) (simp add: Element)
    then obtain p where p: "pathIn cur (rootKids d) = Some p" using pathIn_Some by blast
    have "cur \<in> fst ` set (D @ [(cur, k)])" by simp
    from attrSlots_inv[OF ts p this mono1, of as] obtain acc1 where
      a: "attrSlots d 0 cur as acc = Some (Inr acc1)"
      and rc1: "\<forall>slot\<in>set acc1. recorded d (fst ` set (D @ [(cur, k)])) slot" by blast
    have "walk d 0 it (Some cur) acc = walk d 0 it' nxt acc1"
      by (subst walk.simps) (simp add: ni k Element a)
    with cont[OF ts en0 rc1] show ?thesis by simp
  next
    case (Comment s)
    have "walk d 0 it (Some cur) acc = walk d 0 it' nxt acc"
      by (subst walk.simps) (simp add: ni k Comment)
    with cont[OF ts en0 mono1] show ?thesis by simp
  next
    case DocumentFragment
    have "walk d 0 it (Some cur) acc = walk d 0 it' nxt acc"
      by (subst walk.simps) (simp add: ni k DocumentFragment)
    with cont[OF ts en0 mono1] show ?thesis by simp
  qed
qed

lemma templateState_parseTemplate: "templateState (parseTemplate parseHTML strings)"
proof -
  obtain cs c where l: "label 1 (parseHTML (join strings replacement)) = (cs, c)"
    by (cases "label 1 (parseHTML (join strings replacement))")
  from label_ids[OF l] have i: "ids cs = [1..<c]" "1 \<le> c" "leafy cs" by auto
  have d: "parseTemplate parseHTML strings
      = \<lparr>roots = [Node 0 DocumentFragment cs], nextId = c, windowName = [], console = []\<rparr>"
    unfolding parseTemplate_def l by simp
  show ?thesis unfolding d templateState_def wfDoc_def using i by auto
qed

lemma walkTemplate_total:
  "\<exists>d' acc. walkTemplate parseHTML strings = Some (Inr (d', acc))
     \<and> templateState d' \<and> (\<forall>slot\<in>set acc. recorded d' (set (ids (roots d'))) slot)"
proof -
  define d where "d = parseTemplate parseHTML strings"
  define it where "it = createNodeIterator 0"
  have ts: "templateState d" unfolding d_def by (rule templateState_parseTemplate)
  have it0: "itRoot it = 0" "referenceNode it = 0" "pointerBeforeReferenceNode it"
    by (simp_all add: it_def createNodeIterator_def)
  define E where "E = entries (rootKids d)"
  have en: "entries (roots d) = (0, DocumentFragment) # E"
    unfolding E_def by (rule template_entries_root[OF ts])
  have nn: "nextNode d it = (case find (\<lambda>e. shownK (snd e)) E of None \<Rightarrow> (None, it)
      | Some e \<Rightarrow> (Some (fst e), it\<lparr>referenceNode := fst e, pointerBeforeReferenceNode := False\<rparr>))"
    unfolding nextNode_template[OF ts it0(1)] it0(2) en using it0(3) by simp
  have w: "walkTemplate parseHTML strings = (case nextNode d it of (node, it') \<Rightarrow> walk d 0 it' node [])"
    by (simp add: walkTemplate_def d_def it_def Let_def)
  show ?thesis
  proof (cases "find (\<lambda>e. shownK (snd e)) E")
    case None
    then have "walkTemplate parseHTML strings = Some (Inr (d, []))"
      unfolding w nn by (simp add: walk.simps)
    with ts show ?thesis by simp
  next
    case (Some e)
    obtain m km where e: "e = (m, km)" by (cases e)
    from find_split[OF Some] obtain U V where R: "E = U @ (m, km) # V" unfolding e by blast
    define it' where "it' = it\<lparr>referenceNode := m, pointerBeforeReferenceNode := False\<rparr>"
    have w': "walkTemplate parseHTML strings = walk d 0 it' (Some m) []"
      unfolding w nn by (simp add: Some e it'_def)
    have en': "entries (roots d) = ((0, DocumentFragment) # U) @ (m, km) # V" by (simp add: en R)
    have "itRoot it' = 0" "referenceNode it' = m" "\<not> pointerBeforeReferenceNode it'"
      using it0(1) by (simp_all add: it'_def)
    from walk_inv[OF ts en' this, of "[]"] show ?thesis unfolding w' by simp
  qed
qed

lemma kids_strip: "kids (strip x) = map strip (kids x)"
  by (cases x) simp

lemma nav_strip: "nav (strip x) p = map_option strip (nav x p)"
proof (induction p arbitrary: x)
  case Nil
  then show ?case by simp
next
  case (Cons j p)
  show ?case
  proof (cases "j < length (kids x)")
    case True
    then have "nav (strip x) (j # p) = nav (strip (kids x ! j)) p" by (simp add: kids_strip)
    also have "\<dots> = map_option strip (nav (kids x ! j) p)" by (rule Cons.IH)
    finally show ?thesis using True by simp
  next
    case False
    then show ?thesis by (simp add: kids_strip)
  qed
qed

lemma navNext_strip: "navNext (strip x) p = navNext x p"
proof (induction p arbitrary: x)
  case Nil
  then show ?case by simp
next
  case (Cons j p)
  show ?case
  proof (cases "j < length (kids x)")
    case True
    have "navNext (strip (kids x ! j)) p = navNext (kids x ! j) p" by (rule Cons.IH)
    then show ?thesis using True by (simp add: kids_strip)
  next
    case False
    then show ?thesis by (simp add: kids_strip)
  qed
qed

lemma relabel_strip:
  "relabel c f = (f', c') \<Longrightarrow> map strip f' = map strip f \<and> ids f' = [c..<c'] \<and> c \<le> c'"
proof (induction c f arbitrary: f' c' rule: relabel.induct)
  case (1 c)
  then show ?case by simp
next
  case (2 c i k cs rest)
  obtain cs' c1 where l1: "relabel (Suc c) cs = (cs', c1)" by (cases "relabel (Suc c) cs")
  obtain xs c2 where l2: "relabel c1 rest = (xs, c2)" by (cases "relabel c1 rest")
  from "2.prems" l1 l2 have f': "f' = Node c k cs' # xs" and c': "c' = c2" by auto
  from "2.IH"(1)[OF l1] have i1: "map strip cs' = map strip cs" "ids cs' = [Suc c..<c1]" "Suc c \<le> c1"
    by auto
  from "2.IH"(2)[OF l1[symmetric] refl l2] have i2: "map strip xs = map strip rest"
    "ids xs = [c1..<c2]" "c1 \<le> c2" by auto
  have "[c..<c2] = c # [Suc c..<c2]" using i1(3) i2(3) by (simp add: upt_conv_Cons)
  then have "[c..<c2] = c # [Suc c..<c1] @ [c1..<c2]"
    using upt_split[OF i1(3) i2(3)] by simp
  then show ?case using f' c' i1 i2 by simp
qed

lemma navNext_hasNext:
  assumes "distinct (ids (roots d))"
  shows "x \<in> set (preorder (roots d)) \<Longrightarrow> nav x p = Some y \<Longrightarrow> p \<noteq> []
     \<Longrightarrow> hasNext d (nid y) = navNext x p"
proof (induction p arbitrary: x)
  case Nil
  then show ?case by simp
next
  case (Cons j q)
  from Cons.prems(2) have j: "j < length (kids x)" and n: "nav (kids x ! j) q = Some y"
    by (auto split: if_splits)
  have cin: "kids x ! j \<in> set (preorder (roots d))"
    using Cons.prems(1) j by (auto intro: child_preorder)
  show ?case
  proof (cases "q = []")
    case True
    then have y: "y = kids x ! j" using n by simp
    have "parentOf (nid y) (roots d) = Some x"
      using parentOf_distinct[OF assms Cons.prems(1)] j y by simp
    then have sib: "siblingIds d (nid y) = map nid (kids x)" by (simp add: siblingIds_def)
    have dk: "distinct (map nid (kids x))" by (rule distinct_kids[OF assms Cons.prems(1)])
    have "dropWhile (\<lambda>i. i \<noteq> nid y) (map nid (kids x))
        = map nid (dropWhile (\<lambda>z. nid z \<noteq> nid (kids x ! j)) (kids x))"
      by (simp add: dropWhile_map comp_def y)
    also have "\<dots> = map nid (drop j (kids x))"
      by (simp add: dropWhile_eq_drop takeWhile_nth_distinct[OF dk j])
    finally have dw: "dropWhile (\<lambda>i. i \<noteq> nid y) (siblingIds d (nid y)) = map nid (drop j (kids x))"
      by (simp add: sib)
    have "tl (drop j (kids x)) = drop (Suc j) (kids x)" by (simp add: drop_Suc tl_drop)
    then have "tl (dropWhile (\<lambda>i. i \<noteq> nid y) (siblingIds d (nid y))) = map nid (drop (Suc j) (kids x))"
      unfolding dw by (simp add: map_tl[symmetric] del: map_tl)
    then show ?thesis using j True by (auto simp: hasNext_ids)
  next
    case False
    from Cons.IH[OF cin n False] show ?thesis using j False by simp
  qed
qed

lemma recorded_navNext:
  assumes "templateState d" "recorded d B slot"
  shows "\<exists>y. nav (Node 0 DocumentFragment (rootKids d)) (slotPath slot) = Some y"
    and "slot = TemplateNodeSlot p \<Longrightarrow> navNext (Node 0 DocumentFragment (rootKids d)) p"
proof -
  note td = templateStateD[OF assms(1)]
  define x where "x = Node 0 DocumentFragment (rootKids d)"
  have xin: "x \<in> set (preorder (roots d))" by (subst td(1)) (simp add: x_def)
  from assms(2) obtain s where s: "pathIn s (rootKids d) = Some (slotPath slot)"
    and h: "(case slot of TemplateNodeSlot p \<Rightarrow> hasNext d s | TemplateAttrValueSlot p a \<Rightarrow> True)"
    by (auto simp: recorded_def)
  from pathIn_nav[OF s] obtain j q y where
    p: "slotPath slot = j # q" and j: "j < length (rootKids d)" and n: "nav (rootKids d ! j) q = Some y"
    and sy: "nid y = s" by blast
  have nv: "nav x (slotPath slot) = Some y" using p j n by (simp add: x_def)
  then show "\<exists>y. nav (Node 0 DocumentFragment (rootKids d)) (slotPath slot) = Some y"
    unfolding x_def by blast
  assume sl: "slot = TemplateNodeSlot p"
  then have "hasNext d s" using h by simp
  moreover have "hasNext d (nid y) = navNext x (slotPath slot)"
    by (rule navNext_hasNext[OF td(4) xin nv]) (simp add: p)
  ultimately show "navNext (Node 0 DocumentFragment (rootKids d)) p"
    using sy sl by (simp add: x_def)
qed

lemma importNode_template:
  assumes "templateState src" "wfDoc d"
  shows "\<exists>x' c. importNode d src 0 = Inr (d\<lparr>roots := roots d @ [x'], nextId := c\<rparr>, nextId d)
     \<and> nid x' = nextId d \<and> strip x' = strip (Node 0 DocumentFragment (rootKids src))
     \<and> wfDoc (d\<lparr>roots := roots d @ [x'], nextId := c\<rparr>)"
proof -
  note td = templateStateD[OF assms(1)]
  define x where "x = Node 0 DocumentFragment (rootKids src)"
  have f0: "findNode 0 (roots src) = Some x"
    unfolding x_def by (subst td(1)) simp
  obtain xs c where r: "relabel (nextId d) [x] = (xs, c)" by (cases "relabel (nextId d) [x]")
  from relabel_strip[OF r] have st: "map strip xs = [strip x]" and i: "ids xs = [nextId d..<c]"
    and le: "nextId d \<le> c" by auto
  from st obtain x' where xs: "xs = [x']" and sx: "strip x' = strip x" by auto
  obtain cs' c1 where r1: "relabel (Suc (nextId d)) (rootKids src) = (cs', c1)"
    by (cases "relabel (Suc (nextId d)) (rootKids src)")
  have "xs = [Node (nextId d) DocumentFragment cs']" using r unfolding x_def by (simp add: r1)
  then have "nid x' = nextId d" unfolding xs by simp
  moreover have "importNode d src 0 = Inr (d\<lparr>roots := roots d @ [x'], nextId := c\<rparr>, nextId d)"
    by (simp add: importNode_def f0 r xs)
  moreover have "wfDoc (d\<lparr>roots := roots d @ [x'], nextId := c\<rparr>)"
  proof -
    have ids': "ids (roots d @ [x']) = ids (roots d) @ [nextId d..<c]" using i by (simp add: xs)
    have old: "distinct (ids (roots d))" "\<forall>i\<in>set (ids (roots d)). i < nextId d"
      using assms(2) by (auto simp: wfDoc_def)
    have "distinct (ids (roots d) @ [nextId d..<c])" using old by auto
    moreover have "\<forall>i\<in>set (ids (roots d) @ [nextId d..<c]). i < c" using old le by auto
    ultimately show ?thesis unfolding wfDoc_def using i[unfolded xs] by simp
  qed
  ultimately show ?thesis using sx unfolding x_def by blast
qed

lemma collectSlots_inv:
  assumes "distinct (ids (roots d))" "x \<in> set (preorder (roots d))"
  shows "\<forall>slot\<in>set ts. (\<exists>y. nav x (slotPath slot) = Some y)
            \<and> (\<forall>p. slot = TemplateNodeSlot p \<longrightarrow> navNext x p)
     \<Longrightarrow> \<forall>sa eb. NodeSlot sa eb \<in> set ss \<union> set ns \<longrightarrow> eb \<noteq> None
     \<Longrightarrow> \<exists>ss' ns' as'. collectSlots d (nid x) ts (ss, ns, as) = Inr (ss', ns', as')
           \<and> (\<forall>sa eb. NodeSlot sa eb \<in> set ss' \<union> set ns' \<longrightarrow> eb \<noteq> None)"
proof (induction ts arbitrary: ss ns as)
  case Nil
  then show ?case by simp
next
  case (Cons slot ts)
  from Cons.prems(1) obtain y where nv: "nav x (slotPath slot) = Some y" by auto
  have nf: "nodeFromPath d (Some (nid x)) (slotPath slot) = Inr (Some (nid y))"
    by (rule nodeFromPath_nav[OF assms nv])
  have rest: "\<forall>slot\<in>set ts. (\<exists>y. nav x (slotPath slot) = Some y)
            \<and> (\<forall>p. slot = TemplateNodeSlot p \<longrightarrow> navNext x p)" using Cons.prems(1) by simp
  show ?case
  proof (cases slot)
    case (TemplateNodeSlot p)
    then have nn: "navNext x p" using Cons.prems(1) by simp
    then have pne: "p \<noteq> []" by auto
    have nv': "nav x p = Some y" using nv TemplateNodeSlot by simp
    have "hasNext d (nid y)" using navNext_hasNext[OF assms nv' pne] nn by simp
    then have ne: "nextSibling d (nid y) \<noteq> None" by (simp add: hasNext_def)
    define nodeSlot where "nodeSlot = NodeSlot (previousSibling d (nid y)) (nextSibling d (nid y))"
    have acc: "\<forall>sa eb. NodeSlot sa eb \<in> set (ss @ [nodeSlot]) \<union> set (ns @ [nodeSlot]) \<longrightarrow> eb \<noteq> None"
      using Cons.prems(2) ne by (auto simp: nodeSlot_def)
    have "collectSlots d (nid x) (slot # ts) (ss, ns, as)
        = collectSlots d (nid x) ts (ss @ [nodeSlot], ns @ [nodeSlot], as)"
      using nf by (simp add: TemplateNodeSlot nodeSlot_def Let_def)
    with Cons.IH[OF rest acc, of as] show ?thesis by simp
  next
    case (TemplateAttrValueSlot p a)
    define attrValueSlot where "attrValueSlot = AttrValueSlot (Some (nid y)) a"
    have acc: "\<forall>sa eb. NodeSlot sa eb \<in> set (ss @ [attrValueSlot]) \<union> set ns \<longrightarrow> eb \<noteq> None"
      using Cons.prems(2) by (auto simp: attrValueSlot_def)
    have "collectSlots d (nid x) (slot # ts) (ss, ns, as)
        = collectSlots d (nid x) ts (ss @ [attrValueSlot], ns, as @ [attrValueSlot])"
      using nf by (simp add: TemplateAttrValueSlot attrValueSlot_def Let_def)
    with Cons.IH[OF rest acc, of "as @ [attrValueSlot]"] show ?thesis by simp
  qed
qed

lemma createTemplate_Inr:
  assumes "createTemplate parseHTML strings = Some (Inr tpl)"
  shows "templateState (templateDocument tpl)" and "content tpl = 0"
    and "\<forall>slot\<in>set (slots tpl). recorded (templateDocument tpl)
            (set (ids (roots (templateDocument tpl)))) slot"
proof -
  from walkTemplate_total[of parseHTML strings] obtain d' acc where
    w: "walkTemplate parseHTML strings = Some (Inr (d', acc))" and ts: "templateState d'"
    and rc: "\<forall>slot\<in>set acc. recorded d' (set (ids (roots d'))) slot" by blast
  from assms have "tpl = \<lparr>templateDocument = d', content = 0, slots = acc\<rparr>"
    unfolding createTemplate_def w by (simp split: if_splits)
  then show "templateState (templateDocument tpl)" and "content tpl = 0"
    and "\<forall>slot\<in>set (slots tpl). recorded (templateDocument tpl)
            (set (ids (roots (templateDocument tpl)))) slot"
    using ts rc by simp_all
qed

section \<open>The slot count\<close>

text \<open>
  C2. For a literal of N+1 fragments, whatever the host's parser makes of it, the walk
  of the compiler ends and gives a list of slots. If their number is not N,
  \<^verbatim>\<open>createTemplate\<close> throws the error whose message is
  \<^verbatim>\<open>Could not find all replacements in template: \<close> followed by the text of the template (the
  fragments joined by the marker), and no template is returned; if it is N,
  \<^verbatim>\<open>createTemplate\<close> returns the template with those N slots.
\<close>

theorem createTemplate_slot_count:
  assumes "length strings = Suc N"
  shows "\<exists>d' acc. walkTemplate parseHTML strings = Some (Inr (d', acc))
     \<and> (length acc \<noteq> N \<longrightarrow> createTemplate parseHTML strings
           = Some (Inl (Error (utf16 ''Could not find all replacements in template: ''
                               @ join strings replacement))))
     \<and> (length acc = N \<longrightarrow> createTemplate parseHTML strings
           = Some (Inr \<lparr>templateDocument = d', content = 0, slots = acc\<rparr>))"
proof -
  from walkTemplate_total[of parseHTML strings] obtain d' acc where
    w: "walkTemplate parseHTML strings = Some (Inr (d', acc))" by blast
  have "int (length acc) \<noteq> int (length strings) - 1 \<longleftrightarrow> length acc \<noteq> N"
    using assms by auto
  then show ?thesis unfolding createTemplate_def w by simp
qed

theorem createTemplate_slot_count_witness:
  "(\<exists>d' acc. walkTemplate paragraphParser [utf16 ''<p>'', utf16 ''</p>''] = Some (Inr (d', acc))
      \<and> length acc = 1
      \<and> createTemplate paragraphParser [utf16 ''<p>'', utf16 ''</p>'']
          = Some (Inr \<lparr>templateDocument = d', content = 0, slots = acc\<rparr>))
   \<and> (\<exists>d' acc. walkTemplate paragraphParser [utf16 ''<p>'', utf16 ''</p>'', []] = Some (Inr (d', acc))
      \<and> length acc = 0
      \<and> createTemplate paragraphParser [utf16 ''<p>'', utf16 ''</p>'', []]
          = Some (Inl (Error (utf16 ''Could not find all replacements in template: ''
                @ join [utf16 ''<p>'', utf16 ''</p>'', []] replacement))))"
proof
  have c: "createTemplate paragraphParser [utf16 ''<p>'', utf16 ''</p>''] = Some (Inr scenario1Template)"
    by (rule scenario1_compiles[of paragraphParser, OF paragraphParser_parses])
  from createTemplate_slot_count[of "[utf16 ''<p>'', utf16 ''</p>'']" 1 paragraphParser]
  obtain d' acc where w: "walkTemplate paragraphParser [utf16 ''<p>'', utf16 ''</p>''] = Some (Inr (d', acc))"
    and a: "length acc \<noteq> 1 \<longrightarrow> createTemplate paragraphParser [utf16 ''<p>'', utf16 ''</p>'']
           = Some (Inl (Error (utf16 ''Could not find all replacements in template: ''
                               @ join [utf16 ''<p>'', utf16 ''</p>''] replacement)))"
    and b: "length acc = 1 \<longrightarrow> createTemplate paragraphParser [utf16 ''<p>'', utf16 ''</p>'']
           = Some (Inr \<lparr>templateDocument = d', content = 0, slots = acc\<rparr>)"
    by auto
  have l: "length acc = 1" using a c by (cases "length acc = 1") simp_all
  with w b show "\<exists>d' acc. walkTemplate paragraphParser [utf16 ''<p>'', utf16 ''</p>''] = Some (Inr (d', acc))
      \<and> length acc = 1
      \<and> createTemplate paragraphParser [utf16 ''<p>'', utf16 ''</p>'']
          = Some (Inr \<lparr>templateDocument = d', content = 0, slots = acc\<rparr>)" by blast
next
  have p: "paragraphParser (join [utf16 ''<p>'', utf16 ''</p>'', []] replacement) = []"
    by (simp add: paragraphParser_def utf16_def replacement_def)
  have w0: "walkTemplate paragraphParser [utf16 ''<p>'', utf16 ''</p>'', []]
      = Some (Inr (\<lparr>roots = [Node 0 DocumentFragment []], nextId = 1, windowName = [], console = []\<rparr>, []))"
    unfolding walkTemplate_def parseTemplate_def p
    by (simp add: nextNode_def createNodeIterator_def findNode_def walk.simps)
  from createTemplate_slot_count[of "[utf16 ''<p>'', utf16 ''</p>'', []]" 2 paragraphParser]
  obtain d' acc where w: "walkTemplate paragraphParser [utf16 ''<p>'', utf16 ''</p>'', []] = Some (Inr (d', acc))"
    and a: "length acc \<noteq> 2 \<longrightarrow> createTemplate paragraphParser [utf16 ''<p>'', utf16 ''</p>'', []]
           = Some (Inl (Error (utf16 ''Could not find all replacements in template: ''
                               @ join [utf16 ''<p>'', utf16 ''</p>'', []] replacement)))"
    by auto
  have l: "length acc = 0" using w w0 by simp
  with w a show "\<exists>d' acc. walkTemplate paragraphParser [utf16 ''<p>'', utf16 ''</p>'', []] = Some (Inr (d', acc))
      \<and> length acc = 0
      \<and> createTemplate paragraphParser [utf16 ''<p>'', utf16 ''</p>'', []]
          = Some (Inl (Error (utf16 ''Could not find all replacements in template: ''
                @ join [utf16 ''<p>'', utf16 ''</p>'', []] replacement)))" by auto
qed

section \<open>The after-boundary of a node anchor\<close>

text \<open>
  C4. For a template that \<^verbatim>\<open>createTemplate\<close> has returned and a well-formed live
  document, \<^verbatim>\<open>importNode\<close> and the first loop of \<^verbatim>\<open>createTemplateInstance\<close> go through
  without an exception, and in every node anchor they make, on \<open>slots\<close> and on
  \<open>nodeSlots\<close>, \<open>endBefore\<close> is a node and not \<^verbatim>\<open>null\<close>; these are the anchors of every
  instance that \<^verbatim>\<open>createTemplateInstance\<close> returns, for any arguments.
\<close>

theorem nodeSlot_endBefore:
  assumes "createTemplate parseHTML strings = Some (Inr tpl)" "wfDoc d"
  shows "\<exists>d1 frag ss ns as.
      importNode d (templateDocument tpl) (content tpl) = Inr (d1, frag)
    \<and> collectSlots d1 frag (slots tpl) ([], [], []) = Inr (ss, ns, as)
    \<and> (\<forall>sa eb. NodeSlot sa eb \<in> set ss \<union> set ns \<longrightarrow> eb \<noteq> None)
    \<and> (\<forall>d2 inst. createTemplateInstance validName d tpl args = Inr (d2, inst)
          \<longrightarrow> instanceSlots inst = ss \<and> nodeSlots inst = ns)"
proof -
  note t = createTemplate_Inr[OF assms(1)]
  define x0 where "x0 = Node 0 DocumentFragment (rootKids (templateDocument tpl))"
  from importNode_template[OF t(1) assms(2)] obtain x' c where
    im: "importNode d (templateDocument tpl) 0 = Inr (d\<lparr>roots := roots d @ [x'], nextId := c\<rparr>, nextId d)"
    and nx: "nid x' = nextId d" and sx: "strip x' = strip x0"
    and wf1: "wfDoc (d\<lparr>roots := roots d @ [x'], nextId := c\<rparr>)"
    unfolding x0_def by blast
  define d1 where "d1 = d\<lparr>roots := roots d @ [x'], nextId := c\<rparr>"
  have di: "distinct (ids (roots d1))" using wf1 by (simp add: wfDoc_def d1_def)
  have xin: "x' \<in> set (preorder (roots d1))" by (simp add: d1_def preorder_append toplevel_preorder)
  have sl: "\<forall>slot\<in>set (slots tpl). (\<exists>y. nav x' (slotPath slot) = Some y)
            \<and> (\<forall>p. slot = TemplateNodeSlot p \<longrightarrow> navNext x' p)"
  proof (intro ballI conjI allI impI)
    fix slot assume "slot \<in> set (slots tpl)"
    then have r: "recorded (templateDocument tpl) (set (ids (roots (templateDocument tpl)))) slot"
      using t(3) by blast
    from recorded_navNext(1)[OF t(1) r] obtain y where "nav x0 (slotPath slot) = Some y"
      unfolding x0_def by blast
    then have "nav (strip x') (slotPath slot) \<noteq> None" by (simp add: sx nav_strip)
    then show "\<exists>y. nav x' (slotPath slot) = Some y" by (simp add: nav_strip)
    fix p assume "slot = TemplateNodeSlot p"
    from recorded_navNext(2)[OF t(1) r this] have "navNext x0 p" by (simp add: x0_def)
    then have "navNext (strip x') p" by (simp add: sx navNext_strip)
    then show "navNext x' p" by (simp add: navNext_strip)
  qed
  have e: "\<forall>sa eb. NodeSlot sa eb \<in> set [] \<union> set [] \<longrightarrow> eb \<noteq> None" by simp
  from collectSlots_inv[OF di xin sl e, of "[]"] obtain ss ns as where
    cs: "collectSlots d1 (nid x') (slots tpl) ([], [], []) = Inr (ss, ns, as)"
    and nb: "\<forall>sa eb. NodeSlot sa eb \<in> set ss \<union> set ns \<longrightarrow> eb \<noteq> None" by blast
  have im': "importNode d (templateDocument tpl) (content tpl) = Inr (d1, nextId d)"
    using im by (simp add: t(2) d1_def)
  have cs': "collectSlots d1 (nextId d) (slots tpl) ([], [], []) = Inr (ss, ns, as)"
    using cs by (simp add: nx)
  have "\<forall>d2 inst. createTemplateInstance validName d tpl args = Inr (d2, inst)
          \<longrightarrow> instanceSlots inst = ss \<and> nodeSlots inst = ns"
    unfolding createTemplateInstance_def im' by (auto simp: cs' split: sum.splits)
  with im' cs' nb show ?thesis by blast
qed

theorem nodeSlot_endBefore_witness:
  "createTemplate paragraphParser [utf16 ''<p>'', utf16 ''</p>''] = Some (Inr scenario1Template)
   \<and> (\<exists>d1 frag ns as.
        importNode emptyDocument (templateDocument scenario1Template) (content scenario1Template)
          = Inr (d1, frag)
      \<and> collectSlots d1 frag (slots scenario1Template) ([], [], [])
          = Inr ([NodeSlot None (Some (nextId emptyDocument + 3))], ns, as))"
proof -
  have c: "createTemplate paragraphParser [utf16 ''<p>'', utf16 ''</p>''] = Some (Inr scenario1Template)"
    by (rule scenario1_compiles[of paragraphParser, OF paragraphParser_parses])
  note i = scenario1_instance[OF wf_emptyDocument, where validName = validAttributeLocalName]
  from nodeSlot_endBefore[OF c wf_emptyDocument,
      where validName = validAttributeLocalName and args = "[AString (utf16 ''hello'')]"]
  obtain d1 frag ss ns as where
    a: "importNode emptyDocument (templateDocument scenario1Template) (content scenario1Template)
          = Inr (d1, frag)"
    and b: "collectSlots d1 frag (slots scenario1Template) ([], [], []) = Inr (ss, ns, as)"
    and e: "\<forall>d2 inst. createTemplateInstance validAttributeLocalName emptyDocument scenario1Template [AString (utf16 ''hello'')]
               = Inr (d2, inst) \<longrightarrow> instanceSlots inst = ss \<and> nodeSlots inst = ns"
    by blast
  from e i have "ss = [NodeSlot None (Some (nextId emptyDocument + 3))]" by auto
  with a b c show ?thesis by blast
qed

end
